theory Spec2Isabelle
  imports Complex_Main "HOL-Library.Multiset" "HOL-Library.Log_Nat"
begin

section \<open>Python values used by \<open>dataset_mapping.py\<close>\<close>

text \<open>
  The exceptions the two core functions can raise. Neither function contains a
  \<open>raise\<close> statement: the only failures are those of the arithmetic and dictionary
  primitives they call.
\<close>

datatype py_error = ZeroDivisionError | OverflowError | KeyError

subsection \<open>Floats\<close>

text \<open>
  A Python float is an IEEE 754 binary64 number. A finite float is modelled by the
  rational number it denotes; every operation computes the exact rational result and
  rounds it to the nearest float, ties to the even significand (53 bits, least exponent
  \<open>-1074\<close>). \<open>ilog2 x\<close> is the exponent of a positive rational: \<open>2 ^ ilog2 x \<le> x < 2 ^ (ilog2 x + 1)\<close>.
\<close>

definition ilog2 :: "rat \<Rightarrow> int" where
  "ilog2 x = (case quotient_of x of (a, b) \<Rightarrow>
     let d = bitlen a - bitlen b in if 2 powi d \<le> x then d else d - 1)"

definition round_half_even :: "rat \<Rightarrow> int" where
  "round_half_even x = (let f = \<lfloor>x\<rfloor>; d = x - of_int f in
     if d < 1 / 2 then f else if 1 / 2 < d then f + 1 else if even f then f else f + 1)"

definition round_binary64 :: "rat \<Rightarrow> rat" where
  "round_binary64 x = (if x = 0 then 0 else
     let q = max (ilog2 \<bar>x\<bar> - 52) (- 1074)
     in of_int (round_half_even (x / 2 powi q)) * 2 powi q)"

text \<open>A rounded result of magnitude \<open>2 ^ 1024\<close> or more is not a finite float.\<close>

definition finite64 :: "rat \<Rightarrow> bool" where
  "finite64 x \<longleftrightarrow> \<bar>x\<bar> < 2 ^ 1024"

text \<open>
  \<open>a / b\<close> on two Python ints: true division, correctly rounded; it raises
  \<open>ZeroDivisionError\<close> for \<open>b = 0\<close> and \<open>OverflowError\<close> when the quotient is too large
  for a float.
\<close>

definition int_true_div :: "int \<Rightarrow> int \<Rightarrow> py_error + rat" where
  "int_true_div a b =
     (if b = 0 then Inl ZeroDivisionError
      else let r = round_binary64 (of_int a / of_int b)
           in if finite64 r then Inr r else Inl OverflowError)"

text \<open>An int operand of a float operation is converted to a float first; the conversion
  raises \<open>OverflowError\<close> when the int is too large.\<close>

definition float_of_int :: "int \<Rightarrow> py_error + rat" where
  "float_of_int n =
     (let r = round_binary64 (of_int n) in if finite64 r then Inr r else Inl OverflowError)"

subsection \<open>Dictionaries\<close>

text \<open>
  A \<open>dict\<close> keeps its items in insertion order, and both functions iterate over
  dictionaries, so a dictionary is the list of its items, the keys distinct.
  \<open>d[k] = v\<close> replaces the value of a key that is present, where it stands, and appends
  a new key at the end.
\<close>

fun dict_set :: "('k \<times> 'v) list \<Rightarrow> 'k \<Rightarrow> 'v \<Rightarrow> ('k \<times> 'v) list" where
  "dict_set [] k v = [(k, v)]"
| "dict_set ((k', v') # kvs) k v =
     (if k' = k then (k, v) # kvs else (k', v') # dict_set kvs k v)"

text \<open>\<open>d[k] += 1\<close> reads \<open>d[k]\<close> first, which raises \<open>KeyError\<close> for a missing key.\<close>

definition dict_incr :: "('k \<times> int) list \<Rightarrow> 'k \<Rightarrow> py_error + ('k \<times> int) list" where
  "dict_incr d k =
     (case map_of d k of None \<Rightarrow> Inl KeyError | Some v \<Rightarrow> Inr (dict_set d k (v + 1)))"

subsection \<open>Slices\<close>

text \<open>
  \<open>xs[start:stop]\<close> never raises: a negative bound counts from the end, and both
  bounds are clipped to the list.
\<close>

definition py_slice :: "'a list \<Rightarrow> int \<Rightarrow> int \<Rightarrow> 'a list" where
  "py_slice xs start stop =
     (let n = int (length xs);
          lo = (if start < 0 then max (start + n) 0 else min start n);
          hi = (if stop < 0 then max (stop + n) 0 else min stop n)
      in take (nat (hi - lo)) (drop (nat lo) xs))"

subsection \<open>The module-level random generator\<close>

text \<open>
  \<open>random.seed\<close> and \<open>random.shuffle\<close> act on one generator shared by the whole
  process. Its state is threaded through every call. The generator itself (the Mersenne
  Twister) is a parameter: \<open>rng_seed s\<close> is the state \<open>random.seed(s)\<close> installs, and
  \<open>rng_randbelow n g\<close> draws an index below \<open>n\<close> from state \<open>g\<close> and gives the next state.
\<close>

record 'g random_module =
  rng_seed :: "int \<Rightarrow> 'g"
  rng_randbelow :: "nat \<Rightarrow> 'g \<Rightarrow> nat \<times> 'g"

text \<open>The generator's contract: a draw below \<open>n\<close> is below \<open>n\<close>.\<close>

definition randbelow_ok :: "'g random_module \<Rightarrow> bool" where
  "randbelow_ok R \<longleftrightarrow> (\<forall>n g. 0 < n \<longrightarrow> fst (rng_randbelow R n g) < n)"

text \<open>
  \<open>random.shuffle(x)\<close>, as the standard library writes it:
  \<^verbatim>\<open>
    for i in reversed(range(1, len(x))):
        j = randbelow(i + 1)
        x[i], x[j] = x[j], x[i]
  \<close>
  The list is changed in place; the model returns its new contents and the generator's
  new state.
\<close>

fun shuffle_loop :: "'g random_module \<Rightarrow> nat \<Rightarrow> 'a list \<Rightarrow> 'g \<Rightarrow> 'a list \<times> 'g" where
  "shuffle_loop R 0 x g = (x, g)"
| "shuffle_loop R (Suc i) x g =
     (case rng_randbelow R (Suc i + 1) g of
        (j, g') \<Rightarrow> shuffle_loop R i (x[Suc i := x ! j, j := x ! Suc i]) g')"

definition shuffle :: "'g random_module \<Rightarrow> 'a list \<Rightarrow> 'g \<Rightarrow> 'a list \<times> 'g" where
  "shuffle R x g = shuffle_loop R (length x - 1) x g"

text \<open>\<open>if seed is not None: random.seed(seed)\<close>\<close>

definition seed_if_given :: "'g random_module \<Rightarrow> int option \<Rightarrow> 'g \<Rightarrow> 'g" where
  "seed_if_given R seed g = (case seed of None \<Rightarrow> g | Some s \<Rightarrow> rng_seed R s)"

text \<open>
  A small linear congruential generator, to run the functions on concrete inputs. The
  theorems below hold for every generator.
\<close>

definition lcg :: "int random_module" where
  "lcg = \<lparr> rng_seed = (\<lambda>s. \<bar>s\<bar> mod 2147483648),
           rng_randbelow = (\<lambda>n g. let g' = (1103515245 * g + 12345) mod 2147483648
                                   in (nat (g' mod int n), g')) \<rparr>"

section \<open>\<open>allocate_hospitals_proportional\<close>\<close>

text \<open>
  One pass of the first loop, for one region:
  \<^verbatim>\<open>
    proportion = population / total_population
    exact_allocation = proportion * total_hospitals
    allocated = floor(exact_allocation)
    ... exact_allocation - allocated
  \<close>
  The product of two floats does not raise; when it overflows it is an infinity (here:
  a value that is not \<open>finite64\<close>), and \<open>floor\<close> of an infinity raises
  \<open>OverflowError\<close>. \<open>allocated\<close> is the floor of a float, so its conversion back to
  a float in the last line is exact.
\<close>

definition exact_allocation :: "int \<Rightarrow> int \<Rightarrow> int \<Rightarrow> py_error + rat" where
  "exact_allocation population total_population total_hospitals =
     (case int_true_div population total_population of
        Inl e \<Rightarrow> Inl e
      | Inr proportion \<Rightarrow>
          (case float_of_int total_hospitals of
             Inl e \<Rightarrow> Inl e
           | Inr t \<Rightarrow> Inr (round_binary64 (proportion * t))))"

definition region_share :: "int \<Rightarrow> int \<Rightarrow> int \<Rightarrow> py_error + (int \<times> rat)" where
  "region_share population total_population total_hospitals =
     (case exact_allocation population total_population total_hospitals of
        Inl e \<Rightarrow> Inl e
      | Inr exact \<Rightarrow>
          if \<not> finite64 exact then Inl OverflowError
          else let allocated = \<lfloor>exact\<rfloor>
               in Inr (allocated, round_binary64 (exact - of_int allocated)))"

text \<open>The first loop: it fills \<open>allocation\<close> and \<open>fractional_allocation\<close>, region by region.\<close>

fun initial_allocation ::
  "('r \<times> int) list \<Rightarrow> int \<Rightarrow> int \<Rightarrow> ('r \<times> int) list \<Rightarrow> ('r \<times> rat) list
     \<Rightarrow> py_error + (('r \<times> int) list \<times> ('r \<times> rat) list)" where
  "initial_allocation [] total_population total_hospitals allocation fractional_allocation =
     Inr (allocation, fractional_allocation)"
| "initial_allocation ((region, population) # rest) total_population total_hospitals
       allocation fractional_allocation =
     (case region_share population total_population total_hospitals of
        Inl e \<Rightarrow> Inl e
      | Inr (allocated, fractional) \<Rightarrow>
          initial_allocation rest total_population total_hospitals
            (dict_set allocation region allocated)
            (dict_set fractional_allocation region fractional))"

text \<open>
  \<open>sorted(items, key=lambda x: x[1], reverse=True)\<close>: Python's sort is stable, also
  with \<open>reverse=True\<close>, so items of equal key keep their order. That is the stable
  ascending sort on the negated key.
\<close>

definition sorted_reverse :: "('r \<times> rat) list \<Rightarrow> ('r \<times> rat) list" where
  "sorted_reverse items = sort_key (\<lambda>x. - snd x) items"

text \<open>
  The second loop:
  \<^verbatim>\<open>
    for region, frac in sorted_regions:
        if remaining == 0: break
        allocation[region] += 1
        remaining -= 1
  \<close>
\<close>

fun award :: "('r \<times> int) list \<Rightarrow> ('r \<times> rat) list \<Rightarrow> int \<Rightarrow> py_error + ('r \<times> int) list" where
  "award allocation [] remaining = Inr allocation"
| "award allocation ((region, fractional) # rest) remaining =
     (if remaining = 0 then Inr allocation
      else (case dict_incr allocation region of
              Inl e \<Rightarrow> Inl e
            | Inr allocation' \<Rightarrow> award allocation' rest (remaining - 1)))"

text \<open>
  The function returns its value, or raises, and leaves the generator in a new state:
  the result is the pair of both. \<open>regions\<close> is only read.
\<close>

definition allocate_hospitals_proportional ::
  "'g random_module \<Rightarrow> ('r \<times> int) list \<Rightarrow> int \<Rightarrow> int option \<Rightarrow> 'g
     \<Rightarrow> (py_error + ('r \<times> int) list) \<times> 'g" where
  "allocate_hospitals_proportional R regions total_hospitals seed g =
     (let g' = seed_if_given R seed g;
          total_population = sum_list (map snd regions)
      in (case initial_allocation regions total_population total_hospitals [] [] of
            Inl e \<Rightarrow> Inl e
          | Inr (allocation, fractional_allocation) \<Rightarrow>
              let allocated_total = sum_list (map snd allocation);
                  remaining = total_hospitals - allocated_total
              in if remaining > 0
                 then award allocation (sorted_reverse fractional_allocation) remaining
                 else Inr allocation,
          g'))"

section \<open>\<open>assign_hospitals_to_regions\<close>\<close>

text \<open>
  The loop over \<open>allocation.items()\<close>:
  \<^verbatim>\<open>
    assigned_hospitals = hospitals[current_index:current_index + count]
    for hospital in assigned_hospitals:
        mapping[hospital] = region
    current_index += count
  \<close>
\<close>

fun assign_blocks ::
  "'h list \<Rightarrow> ('r \<times> int) list \<Rightarrow> int \<Rightarrow> ('h \<times> 'r) list \<Rightarrow> ('h \<times> 'r) list" where
  "assign_blocks hospitals [] current_index mapping = mapping"
| "assign_blocks hospitals ((region, cnt) # rest) current_index mapping =
     assign_blocks hospitals rest (current_index + cnt)
       (fold (\<lambda>hospital m. dict_set m hospital region)
          (py_slice hospitals current_index (current_index + cnt)) mapping)"

text \<open>
  The result is the triple of the returned value, the contents of the caller's
  \<open>hospitals\<close> list after the call (\<open>random.shuffle\<close> works in place) and the generator's
  state after the call.
\<close>

definition assign_hospitals_to_regions ::
  "'g random_module \<Rightarrow> 'h list \<Rightarrow> ('r \<times> int) list \<Rightarrow> int option \<Rightarrow> 'g
     \<Rightarrow> (py_error + ('h \<times> 'r) list) \<times> 'h list \<times> 'g" where
  "assign_hospitals_to_regions R hospitals allocation seed g =
     (case shuffle R hospitals (seed_if_given R seed g) of
        (hospitals', g') \<Rightarrow> (Inr (assign_blocks hospitals' allocation 0 []), hospitals', g'))"

section \<open>Notions used to state the properties\<close>

text \<open>The region labels an allocation asks for, block after block, in its iteration order.\<close>

definition block_labels :: "('r \<times> int) list \<Rightarrow> 'r list" where
  "block_labels allocation = concat (map (\<lambda>(region, cnt). replicate (nat cnt) region) allocation)"

text \<open>The generator's state after the draws of a shuffle over a list of \<open>i + 1\<close> elements.\<close>

fun shuffle_draws :: "'g random_module \<Rightarrow> nat \<Rightarrow> 'g \<Rightarrow> 'g" where
  "shuffle_draws R 0 g = g"
| "shuffle_draws R (Suc i) g = shuffle_draws R i (snd (rng_randbelow R (Suc i + 1) g))"

text \<open>The exact proportional share of a region, as a rational number.\<close>

definition exact_share :: "int \<Rightarrow> int \<Rightarrow> int \<Rightarrow> rat" where
  "exact_share population total_population total_hospitals =
     of_int population / of_int total_population * of_int total_hospitals"

text \<open>Storing one item: \<open>m[k] = v\<close> for the pair \<open>(k, v)\<close>.\<close>

abbreviation set_item :: "'k \<times> 'v \<Rightarrow> ('k \<times> 'v) list \<Rightarrow> ('k \<times> 'v) list" where
  "set_item \<equiv> (\<lambda>p m. dict_set m (fst p) (snd p))"

text \<open>
  What the award loop does to one item of \<open>allocation\<close>, given the set of regions it
  reaches: their counts go up by one.
\<close>

definition awarded :: "'r set \<Rightarrow> 'r \<times> int \<Rightarrow> 'r \<times> int" where
  "awarded K p = (fst p, if fst p \<in> K then snd p + 1 else snd p)"

text \<open>
  Two calls in a row with the same arguments, as in
  \<open>m1 = assign_hospitals_to_regions(ids, alloc, seed)\<close> followed by
  \<open>m2 = assign_hospitals_to_regions(ids, alloc, seed)\<close>: \<open>ids\<close> is one list object, so the
  second call gets it as the first call's \<open>random.shuffle\<close> left it, and the module's
  generator in the state the first call left.
\<close>

definition assign_twice ::
  "'g random_module \<Rightarrow> 'h list \<Rightarrow> ('r \<times> int) list \<Rightarrow> int option \<Rightarrow> 'g
    \<Rightarrow> (py_error + ('h \<times> 'r) list) \<times> (py_error + ('h \<times> 'r) list)" where
  "assign_twice R hospitals allocation seed g =
     (case assign_hospitals_to_regions R hospitals allocation seed g of
        (mapping1, hospitals1, g1) \<Rightarrow>
          (case assign_hospitals_to_regions R hospitals1 allocation seed g1 of
             (mapping2, hospitals2, g2) \<Rightarrow> (mapping1, mapping2)))"

text \<open>
  The same with the list copied for each call, as \<open>main\<close> does with
  \<open>unique_hospitals.copy()\<close>: both calls get the original contents.
\<close>

definition assign_twice_copies ::
  "'g random_module \<Rightarrow> 'h list \<Rightarrow> ('r \<times> int) list \<Rightarrow> int option \<Rightarrow> 'g
    \<Rightarrow> (py_error + ('h \<times> 'r) list) \<times> (py_error + ('h \<times> 'r) list)" where
  "assign_twice_copies R hospitals allocation seed g =
     (case assign_hospitals_to_regions R hospitals allocation seed g of
        (mapping1, hospitals1, g1) \<Rightarrow>
          (case assign_hospitals_to_regions R hospitals allocation seed g1 of
             (mapping2, hospitals2, g2) \<Rightarrow> (mapping1, mapping2)))"

section \<open>Evaluation\<close>

text \<open>The bound of \<open>finite64\<close> as a numeral, so that evaluation does not recompute the power.\<close>

lemma finite64_code [code]:
  "finite64 x \<longleftrightarrow> \<bar>x\<bar> < 179769313486231590772930519078902473361797697894230657273430081157732675805500963132708477322407536021120113879871393357658789768814416622492847430639474124377767893424865485276302219601246094119453082952085005768838150682342462881473913110540827237163350510684586298239947245938479716304835356329624224137216"
  unfolding finite64_def by simp

section \<open>Dictionaries, slices and the shuffle\<close>

subsection \<open>Dictionaries\<close>

lemma map_fst_dict_set:
  "map fst (dict_set d k v) = (if k \<in> set (map fst d) then map fst d else map fst d @ [k])"
  by (induction d) force+

lemma dict_set_keys: "set (map fst (dict_set d k v)) = insert k (set (map fst d))"
  unfolding map_fst_dict_set by auto

lemma dict_set_fresh: "k \<notin> set (map fst d) \<Longrightarrow> dict_set d k v = d @ [(k, v)]"
  by (induction d) auto

lemma dict_set_present:
  "k \<in> set (map fst d) \<Longrightarrow> distinct (map fst d) \<Longrightarrow>
     dict_set d k v = map (\<lambda>p. (fst p, if fst p = k then v else snd p)) d"
proof (induction d)
  case Nil
  then show ?case by simp
next
  case (Cons a d)
  show ?case
  proof (cases "fst a = k")
    case True
    with Cons.prems have "k \<notin> set (map fst d)" by auto
    then have "map (\<lambda>p. (fst p, if fst p = k then v else snd p)) d = d"
      by (induction d) auto
    with True show ?thesis by (cases a) simp
  next
    case False
    with Cons show ?thesis by (cases a) auto
  qed
qed

lemma dict_set_distinct: "distinct (map fst d) \<Longrightarrow> distinct (map fst (dict_set d k v))"
proof (cases "k \<in> set (map fst d)")
  case True
  assume "distinct (map fst d)"
  with True show ?thesis by (simp add: dict_set_present o_def)
next
  case False
  assume "distinct (map fst d)"
  with False show ?thesis by (simp add: dict_set_fresh)
qed

lemma fold_set_item_keys:
  "set (map fst (fold set_item ps m)) = set (map fst m) \<union> set (map fst ps)"
proof (induction ps arbitrary: m)
  case Nil
  then show ?case by simp
next
  case (Cons p ps)
  have "set (map fst (fold set_item (p # ps) m))
      = set (map fst (dict_set m (fst p) (snd p))) \<union> set (map fst ps)"
    using Cons.IH [of "dict_set m (fst p) (snd p)"] by simp
  also have "\<dots> = set (map fst m) \<union> set (map fst (p # ps))"
    unfolding dict_set_keys by auto
  finally show ?case .
qed

lemma fold_set_item_distinct:
  "distinct (map fst m) \<Longrightarrow> distinct (map fst (fold set_item ps m))"
  by (induction ps arbitrary: m) (auto simp: dict_set_distinct)

lemma fold_set_item_fresh:
  "distinct (map fst m @ map fst ps) \<Longrightarrow> fold set_item ps m = m @ ps"
proof (induction ps arbitrary: m)
  case Nil
  then show ?case by simp
next
  case (Cons p ps)
  from Cons.prems have fresh: "fst p \<notin> set (map fst m)" by auto
  then have step: "dict_set m (fst p) (snd p) = m @ [p]" by (simp add: dict_set_fresh)
  from Cons.prems have "distinct (map fst (m @ [p]) @ map fst ps)" by auto
  then have "fold set_item ps (m @ [p]) = (m @ [p]) @ ps" by (rule Cons.IH)
  with step show ?case by simp
qed

lemma fold_same_region:
  "length xs \<le> n \<Longrightarrow>
     fold (\<lambda>hospital m. dict_set m hospital region) xs m
       = fold set_item (zip xs (replicate n region)) m"
proof (induction xs arbitrary: n m)
  case Nil
  then show ?case by simp
next
  case (Cons x xs)
  then obtain n' where n: "n = Suc n'" by (cases n) auto
  with Cons.prems have "length xs \<le> n'" by simp
  from Cons.IH [OF this] show ?case by (simp add: n)
qed

subsection \<open>Slices\<close>

lemma py_slice_block:
  assumes "0 \<le> i" "0 \<le> c"
  shows "py_slice xs i (i + c) = take (nat c) (drop (nat i) xs)"
proof (cases "i \<le> int (length xs)")
  case True
  with assms have "py_slice xs i (i + c)
      = take (nat (min (i + c) (int (length xs)) - i)) (drop (nat i) xs)"
    by (simp add: py_slice_def Let_def min_def)
  also have "\<dots> = take (nat c) (drop (nat i) xs)"
  proof (cases "i + c \<le> int (length xs)")
    case True
    then show ?thesis by (simp add: min_def)
  next
    case False
    with True assms have "length (drop (nat i) xs) \<le> nat c"
      and "length (drop (nat i) xs) \<le> nat (int (length xs) - i)" by auto
    with False show ?thesis by (simp add: min_def)
  qed
  finally show ?thesis .
next
  case False
  with assms show ?thesis by (simp add: py_slice_def Let_def min_def)
qed

subsection \<open>The blocks of an assignment\<close>

lemma block_labels_Cons:
  "block_labels ((region, cnt) # rest) = replicate (nat cnt) region @ block_labels rest"
  by (simp add: block_labels_def)

lemma length_block_labels:
  "\<forall>c \<in> set (map snd allocation). 0 \<le> c \<Longrightarrow>
     length (block_labels allocation) = nat (sum_list (map snd allocation))"
proof (induction allocation)
  case Nil
  then show ?case by (simp add: block_labels_def)
next
  case (Cons a allocation)
  obtain region cnt where a: "a = (region, cnt)" by (cases a)
  from Cons.prems have nn: "0 \<le> cnt" "0 \<le> sum_list (map snd allocation)"
    by (auto simp: a intro!: sum_list_nonneg)
  with Cons show ?case by (simp add: a block_labels_Cons nat_add_distrib)
qed

lemma assign_blocks_fold:
  assumes "\<forall>c \<in> set (map snd allocation). 0 \<le> c" "0 \<le> current_index"
  shows "assign_blocks hospitals allocation current_index mapping
           = fold set_item (zip (drop (nat current_index) hospitals) (block_labels allocation)) mapping"
  using assms
proof (induction allocation arbitrary: current_index mapping)
  case Nil
  then show ?case by (simp add: block_labels_def)
next
  case (Cons a allocation)
  obtain region cnt where a: "a = (region, cnt)" by (cases a)
  from Cons.prems have nn: "0 \<le> cnt" and rest: "\<forall>c \<in> set (map snd allocation). 0 \<le> c"
    by (auto simp: a)
  let ?ys = "drop (nat current_index) hospitals"
  let ?block = "take (nat cnt) ?ys"
  have slice: "py_slice hospitals current_index (current_index + cnt) = ?block"
    using Cons.prems(2) nn by (rule py_slice_block)
  have next_index: "drop (nat (current_index + cnt)) hospitals = drop (nat cnt) ?ys"
    using Cons.prems(2) nn by (simp add: nat_add_distrib add.commute)
  have "assign_blocks hospitals (a # allocation) current_index mapping
      = assign_blocks hospitals allocation (current_index + cnt)
          (fold (\<lambda>hospital m. dict_set m hospital region) ?block mapping)"
    by (simp add: a slice)
  also have "\<dots> = fold set_item (zip (drop (nat cnt) ?ys) (block_labels allocation))
          (fold (\<lambda>hospital m. dict_set m hospital region) ?block mapping)"
    using Cons.IH [OF rest, of "current_index + cnt"] Cons.prems(2) nn
    by (simp add: next_index)
  also have "fold (\<lambda>hospital m. dict_set m hospital region) ?block mapping
      = fold set_item (zip ?block (replicate (nat cnt) region)) mapping"
    by (rule fold_same_region) simp
  also have "fold set_item (zip (drop (nat cnt) ?ys) (block_labels allocation))
        (fold set_item (zip ?block (replicate (nat cnt) region)) mapping)
      = fold set_item (zip ?ys (block_labels (a # allocation))) mapping"
    by (simp add: a block_labels_Cons zip_append2)
  finally show ?case .
qed

lemma assign_blocks_distinct:
  assumes "\<forall>c \<in> set (map snd allocation). 0 \<le> c" "distinct hospitals"
  shows "assign_blocks hospitals allocation 0 [] = zip hospitals (block_labels allocation)"
proof -
  have "distinct (map fst (zip hospitals (block_labels allocation)))"
    using assms(2) by (simp add: map_fst_zip_take)
  then have "fold set_item (zip hospitals (block_labels allocation)) []
      = zip hospitals (block_labels allocation)"
    using fold_set_item_fresh [of "[]"] by simp
  with assign_blocks_fold [OF assms(1), of 0 hospitals "[]"] show ?thesis by simp
qed

subsection \<open>The shuffle\<close>

lemma shuffle_loop_mset:
  "randbelow_ok R \<Longrightarrow> i < length x \<Longrightarrow> mset (fst (shuffle_loop R i x g)) = mset x"
proof (induction i arbitrary: x g)
  case 0
  then show ?case by simp
next
  case (Suc i)
  obtain j g' where draw: "rng_randbelow R (Suc i + 1) g = (j, g')"
    by (cases "rng_randbelow R (Suc i + 1) g")
  from Suc.prems(1) have "fst (rng_randbelow R (Suc i + 1) g) < Suc i + 1"
    unfolding randbelow_ok_def by simp
  with draw Suc.prems(2) have j: "j < length x" by simp
  let ?x' = "x[Suc i := x ! j, j := x ! Suc i]"
  have swap: "mset ?x' = mset x" using j Suc.prems(2) by (simp add: mset_swap)
  have "i < length ?x'" using Suc.prems(2) by simp
  from Suc.IH [OF Suc.prems(1) this] swap draw show ?case by simp
qed

lemma shuffle_mset: "randbelow_ok R \<Longrightarrow> mset (fst (shuffle R x g)) = mset x"
proof (cases x)
  case Nil
  then show ?thesis by (simp add: shuffle_def)
next
  case (Cons a list)
  assume "randbelow_ok R"
  then show ?thesis unfolding shuffle_def by (rule shuffle_loop_mset) (simp add: Cons)
qed

lemma shuffle_loop_state: "snd (shuffle_loop R i x g) = shuffle_draws R i g"
  by (induction i arbitrary: x g) (auto split: prod.splits)

lemma shuffle_state: "snd (shuffle R x g) = shuffle_draws R (length x - 1) g"
  by (simp add: shuffle_def shuffle_loop_state)

lemma randbelow_ok_lcg: "randbelow_ok lcg"
  by (simp add: randbelow_ok_def lcg_def Let_def nat_less_iff)

subsection \<open>Blocks, errors and effects\<close>

lemma set_block_labels: "set (block_labels allocation) \<subseteq> set (map fst allocation)"
  by (induction allocation) (auto simp: block_labels_def)

lemma count_block_labels:
  assumes "distinct (map fst allocation)" "(region, cnt) \<in> set allocation"
  shows "count (mset (block_labels allocation)) region = nat cnt"
  using assms
proof (induction allocation)
  case Nil
  then show ?case by simp
next
  case (Cons a allocation)
  obtain r c where a: "a = (r, c)" by (cases a)
  show ?case
  proof (cases "(region, cnt) = a")
    case True
    with Cons.prems(1) have "region \<notin> set (map fst allocation)" by (auto simp: a)
    with set_block_labels [of allocation] have "region \<notin> set (block_labels allocation)" by auto
    then have "count (mset (block_labels allocation)) region = 0"
      by (simp add: count_eq_zero_iff)
    with True show ?thesis by (simp add: a block_labels_Cons)
  next
    case False
    with Cons.prems have mem: "(region, cnt) \<in> set allocation" by simp
    with Cons.prems(1) have "r \<noteq> region" by (force simp: a)
    moreover have "count (mset (block_labels allocation)) region = nat cnt"
      using Cons.IH Cons.prems(1) mem by simp
    ultimately show ?thesis by (simp add: a block_labels_Cons)
  qed
qed

lemma dict_set_subset: "set (dict_set m k v) \<subseteq> insert (k, v) (set m)"
  by (induction m) (auto split: if_splits)

lemma fold_set_item_subset: "set (fold set_item ps m) \<subseteq> set m \<union> set ps"
proof (induction ps arbitrary: m)
  case Nil
  then show ?case by simp
next
  case (Cons p ps)
  have "set (dict_set m (fst p) (snd p)) \<subseteq> insert p (set m)"
    using dict_set_subset [of m "fst p" "snd p"] by simp
  with Cons.IH [of "dict_set m (fst p) (snd p)"] show ?case by auto
qed

lemma distinct_subset_mset: "distinct xs \<Longrightarrow> set xs \<subseteq> set ys \<Longrightarrow> mset xs \<subseteq># mset ys"
proof (induction xs arbitrary: ys)
  case Nil
  then show ?case by simp
next
  case (Cons x xs)
  from Cons.prems have x: "x \<in># mset ys" by simp
  have "set xs \<subseteq> set (remove1 x ys)"
  proof
    fix y assume y: "y \<in> set xs"
    with Cons.prems have "y \<noteq> x" "y \<in> set ys" by auto
    then show "y \<in> set (remove1 x ys)" by simp
  qed
  with Cons.IH [of "remove1 x ys"] Cons.prems(1) have "mset xs \<subseteq># mset ys - {#x#}" by simp
  with x have "add_mset x (mset xs) \<subseteq># mset ys" by (simp add: insert_subset_eq_iff)
  then show ?case by simp
qed

lemma mset_take_subseteq: "mset (take n xs) \<subseteq># mset xs"
proof -
  have "mset xs = mset (take n xs) + mset (drop n xs)"
    by (simp flip: mset_append)
  then show ?thesis by simp
qed

lemma length_shuffle_loop: "length (fst (shuffle_loop R i x g)) = length x"
  by (induction i arbitrary: x g) (auto split: prod.splits)

lemma length_shuffle: "length (fst (shuffle R x g)) = length x"
  by (simp add: shuffle_def length_shuffle_loop)

lemma assign_value:
  "fst (assign_hospitals_to_regions R hospitals allocation seed g)
     = Inr (assign_blocks (fst (shuffle R hospitals (seed_if_given R seed g))) allocation 0 [])"
  by (simp add: assign_hospitals_to_regions_def split: prod.splits)

lemma assign_list:
  "fst (snd (assign_hospitals_to_regions R hospitals allocation seed g))
     = fst (shuffle R hospitals (seed_if_given R seed g))"
  by (simp add: assign_hospitals_to_regions_def split: prod.splits)

lemma assign_state:
  "snd (snd (assign_hospitals_to_regions R hospitals allocation seed g))
     = snd (shuffle R hospitals (seed_if_given R seed g))"
  by (simp add: assign_hospitals_to_regions_def split: prod.splits)

lemma assign_general:
  assumes "\<forall>c \<in> set (map snd allocation). 0 \<le> c"
  shows "fst (assign_hospitals_to_regions R hospitals allocation seed g)
     = Inr (fold set_item (zip (fst (snd (assign_hospitals_to_regions R hospitals allocation seed g)))
              (block_labels allocation)) [])"
  using assign_blocks_fold [OF assms, of 0 _ "[]"] by (simp add: assign_value assign_list)

lemma assign_distinct:
  assumes "randbelow_ok R" "distinct hospitals" "\<forall>c \<in> set (map snd allocation). 0 \<le> c"
  shows "fst (assign_hospitals_to_regions R hospitals allocation seed g)
     = Inr (zip (fst (snd (assign_hospitals_to_regions R hospitals allocation seed g)))
              (block_labels allocation))"
proof -
  let ?hs = "fst (shuffle R hospitals (seed_if_given R seed g))"
  have "mset ?hs = mset hospitals" using assms(1) by (rule shuffle_mset)
  from mset_eq_imp_distinct_iff [OF this] assms(2) have "distinct ?hs" by simp
  with assms(3) show ?thesis by (simp add: assign_value assign_list assign_blocks_distinct)
qed

lemma region_share_zero: "region_share population 0 total_hospitals = Inl ZeroDivisionError"
  by (simp add: region_share_def exact_allocation_def int_true_div_def)

lemma region_share_error:
  "region_share population total_population total_hospitals = Inl e \<Longrightarrow>
     (e = ZeroDivisionError \<and> total_population = 0) \<or> (e = OverflowError \<and> total_population \<noteq> 0)"
  by (auto simp: region_share_def exact_allocation_def int_true_div_def float_of_int_def Let_def
      split: sum.splits if_splits)

lemma initial_allocation_zero:
  "regions \<noteq> [] \<Longrightarrow>
     initial_allocation regions 0 total_hospitals allocation fractional_allocation
       = Inl ZeroDivisionError"
  by (cases regions) (auto simp: region_share_zero)

lemma initial_allocation_error:
  "initial_allocation regions total_population total_hospitals allocation fractional_allocation = Inl e
     \<Longrightarrow> (e = ZeroDivisionError \<and> total_population = 0 \<and> regions \<noteq> [])
         \<or> (e = OverflowError \<and> total_population \<noteq> 0)"
proof (induction regions arbitrary: allocation fractional_allocation)
  case Nil
  then show ?case by simp
next
  case (Cons a regions)
  obtain region population where a: "a = (region, population)" by (cases a)
  show ?case
  proof (cases "region_share population total_population total_hospitals")
    case (Inl e')
    with Cons.prems have "e' = e" by (simp add: a)
    with Inl region_share_error [of population total_population total_hospitals e]
    show ?thesis by auto
  next
    case (Inr share)
    with Cons.prems have "initial_allocation regions total_population total_hospitals
        (dict_set allocation region (fst share)) (dict_set fractional_allocation region (snd share))
      = Inl e"
      by (simp add: a split: prod.splits)
    from Cons.IH [OF this] show ?thesis by auto
  qed
qed

lemma award_error: "award allocation sorted_regions remaining = Inl e \<Longrightarrow> e = KeyError"
proof (induction sorted_regions arbitrary: allocation remaining)
  case Nil
  then show ?case by simp
next
  case (Cons a sorted_regions)
  obtain region fractional where a: "a = (region, fractional)" by (cases a)
  show ?case
  proof (cases "dict_incr allocation region")
    case (Inl e')
    then have "e' = KeyError" by (auto simp: dict_incr_def split: option.splits)
    with Inl Cons.prems show ?thesis by (auto simp: a split: if_splits)
  next
    case (Inr allocation')
    with Cons.prems have "award allocation' sorted_regions (remaining - 1) = Inl e"
      by (auto simp: a split: if_splits)
    then show ?thesis by (rule Cons.IH)
  qed
qed

section \<open>Floating-point rounding\<close>

lemma quotient_of_pos:
  assumes "0 < x" "quotient_of x = (a, b)"
  shows "0 < a" "0 < b" "x = of_int a / of_int b"
proof -
  show b: "0 < b" using assms(2) by (rule quotient_of_denom_pos)
  show x: "x = of_int a / of_int b" using assms(2) by (rule quotient_of_div)
  from assms(1) x b show "0 < a" by (simp add: zero_less_divide_iff)
qed

lemma bitlen_pos: "0 < a \<Longrightarrow> 1 \<le> bitlen a"
  by (simp add: bitlen_ge_iff_power)

lemma bitlen_bounds_rat:
  assumes "0 < a"
  shows "(2::rat) powi (bitlen a - 1) \<le> of_int a" "(of_int a :: rat) < 2 powi (bitlen a)"
proof -
  from assms have l: "1 \<le> bitlen a" by (rule bitlen_pos)
  from bitlen_bounds [OF assms] have lo: "2 ^ nat (bitlen a - 1) \<le> a" and hi: "a < 2 ^ nat (bitlen a)"
    by simp_all
  from lo have "(of_int (2 ^ nat (bitlen a - 1)) :: rat) \<le> of_int a" by (simp only: of_int_le_iff)
  then show "(2::rat) powi (bitlen a - 1) \<le> of_int a" using l by (simp add: power_int_def)
  from hi have "(of_int a :: rat) < of_int (2 ^ nat (bitlen a))" by (simp only: of_int_less_iff)
  then show "(of_int a :: rat) < 2 powi (bitlen a)" using l by (simp add: power_int_def)
qed

lemma ilog2_bounds:
  assumes "0 < x"
  shows "2 powi (ilog2 x) \<le> x" "x < 2 powi (ilog2 x + 1)"
proof -
  obtain a b where q: "quotient_of x = (a, b)" by (cases "quotient_of x")
  from quotient_of_pos [OF assms q] have a: "0 < a" and b: "0 < b" and x: "x = of_int a / of_int b"
    by simp_all
  let ?d = "bitlen a - bitlen b"
  have b': "(0::rat) < of_int b" using b by simp
  have "x < 2 powi (?d + 1)"
  proof -
    have "(of_int a :: rat) < 2 powi (bitlen a)" using a by (rule bitlen_bounds_rat)
    also have "\<dots> = 2 powi (?d + 1) * 2 powi (bitlen b - 1)"
      by (simp flip: power_int_add)
    also have "\<dots> \<le> 2 powi (?d + 1) * of_int b"
      using bitlen_bounds_rat(1) [OF b] by (intro mult_left_mono) simp_all
    finally show ?thesis using b' by (simp add: x pos_divide_less_eq)
  qed
  moreover have "2 powi (?d - 1) < x"
  proof -
    have "(2::rat) powi (?d - 1) * of_int b < 2 powi (?d - 1) * 2 powi (bitlen b)"
      using bitlen_bounds_rat(2) [OF b] by (intro mult_strict_left_mono) simp_all
    also have "\<dots> = 2 powi (bitlen a - 1)" by (simp flip: power_int_add)
    also have "\<dots> \<le> of_int a" using a by (rule bitlen_bounds_rat)
    finally show ?thesis using b' by (simp add: x pos_less_divide_eq)
  qed
  ultimately have "2 powi (ilog2 x) \<le> x \<and> x < 2 powi (ilog2 x + 1)"
    by (auto simp: ilog2_def q Let_def)
  then show "2 powi (ilog2 x) \<le> x" "x < 2 powi (ilog2 x + 1)" by simp_all
qed

lemma ilog2_unique:
  assumes "0 < x" "2 powi e \<le> x" "x < 2 powi (e + 1)"
  shows "ilog2 x = e"
proof (rule ccontr)
  assume ne: "ilog2 x \<noteq> e"
  from ilog2_bounds [OF assms(1)] have lo: "2 powi (ilog2 x) \<le> x" and hi: "x < 2 powi (ilog2 x + 1)" .
  show False
  proof (cases "ilog2 x < e")
    case True
    then have "ilog2 x + 1 \<le> e" by simp
    then have "(2::rat) powi (ilog2 x + 1) \<le> 2 powi e" by (intro power_int_increasing) simp_all
    with hi assms(2) show False by simp
  next
    case False
    with ne have "e + 1 \<le> ilog2 x" by simp
    then have "(2::rat) powi (e + 1) \<le> 2 powi (ilog2 x)" by (intro power_int_increasing) simp_all
    with lo assms(3) show False by simp
  qed
qed

lemma ilog2_less:
  assumes "0 < x" "x < 2 powi e"
  shows "ilog2 x < e"
proof (rule ccontr)
  assume "\<not> ilog2 x < e"
  then have "(2::rat) powi e \<le> 2 powi (ilog2 x)" by (intro power_int_increasing) simp_all
  with ilog2_bounds(1) [OF assms(1)] assms(2) show False by simp
qed

lemma ilog2_ge:
  assumes "0 < x" "2 powi e \<le> x"
  shows "e \<le> ilog2 x"
proof (rule ccontr)
  assume "\<not> e \<le> ilog2 x"
  then have "ilog2 x + 1 \<le> e" by simp
  then have "(2::rat) powi (ilog2 x + 1) \<le> 2 powi e" by (intro power_int_increasing) simp_all
  with ilog2_bounds(2) [OF assms(1)] assms(2) show False by simp
qed

lemma round_half_even_cases:
  "round_half_even y = \<lfloor>y\<rfloor> \<or> round_half_even y = \<lfloor>y\<rfloor> + 1"
  by (simp add: round_half_even_def Let_def)

lemma round_half_even_error: "\<bar>of_int (round_half_even y) - y\<bar> \<le> 1 / 2"
proof -
  have "of_int \<lfloor>y\<rfloor> \<le> y" "y < of_int \<lfloor>y\<rfloor> + 1" by linarith+
  then show ?thesis
    by (auto simp: round_half_even_def Let_def abs_le_iff not_less)
qed

lemma round_half_even_of_int [simp]: "round_half_even (of_int k) = k"
  by (simp add: round_half_even_def)

lemma round_half_even_le: "y \<le> of_int k \<Longrightarrow> round_half_even y \<le> k"
proof -
  assume y: "y \<le> of_int k"
  show ?thesis
  proof (cases "y = of_int k")
    case True
    then show ?thesis by simp
  next
    case False
    with y have "y < of_int k" by simp
    then have "\<lfloor>y\<rfloor> < k" by (simp add: floor_less_iff)
    with round_half_even_cases [of y] show ?thesis by auto
  qed
qed

lemma round_half_even_ge: "of_int k \<le> y \<Longrightarrow> k \<le> round_half_even y"
proof -
  assume "of_int k \<le> y"
  then have "k \<le> \<lfloor>y\<rfloor>" by (simp add: le_floor_iff)
  with round_half_even_cases [of y] show ?thesis by auto
qed

lemma round_binary64_0 [simp]: "round_binary64 0 = 0"
  by (simp add: round_binary64_def)

lemma round_binary64_nonneg: "0 \<le> x \<Longrightarrow> 0 \<le> round_binary64 x"
proof (cases "x = 0")
  case True
  then show ?thesis by simp
next
  case False
  assume "0 \<le> x"
  let ?q = "max (ilog2 \<bar>x\<bar> - 52) (- 1074)"
  from \<open>0 \<le> x\<close> have "(of_int 0 :: rat) \<le> x / 2 powi ?q" by simp
  then have "0 \<le> round_half_even (x / 2 powi ?q)" by (rule round_half_even_ge)
  with False show ?thesis by (simp add: round_binary64_def Let_def)
qed

text \<open>A number with a 53-bit significand and an exponent in range is a float.\<close>

lemma round_binary64_exact:
  assumes "x = of_int m * 2 powi e" "\<bar>m\<bar> < 2 ^ 53" "- 1074 \<le> e"
  shows "round_binary64 x = x"
proof (cases "x = 0")
  case True
  then show ?thesis by simp
next
  case False
  let ?q = "max (ilog2 \<bar>x\<bar> - 52) (- 1074)"
  have pos: "0 < \<bar>x\<bar>" using False by simp
  have "\<bar>x\<bar> = of_int \<bar>m\<bar> * 2 powi e" by (simp add: assms(1) abs_mult)
  also have "\<dots> < 2 ^ 53 * 2 powi e"
  proof (rule mult_strict_right_mono)
    from assms(2) have "(of_int \<bar>m\<bar> :: rat) < of_int (2 ^ 53)" by (simp only: of_int_less_iff)
    then show "(of_int \<bar>m\<bar> :: rat) < 2 ^ 53" by simp
    show "(0::rat) < 2 powi e" by simp
  qed
  also have "\<dots> = 2 powi (e + 53)" by (simp add: power_int_add)
  finally have "ilog2 \<bar>x\<bar> < e + 53" using pos by (intro ilog2_less)
  with assms(3) have qe: "?q \<le> e" by simp
  then obtain k :: nat where k: "e = ?q + int k" by (metis zero_le_imp_eq_int diff_ge_0_iff_ge add_diff_cancel_left' add.commute diff_add_cancel)
  have "x / 2 powi ?q = of_int m * (2 powi e / 2 powi ?q)" by (simp add: assms(1))
  also have "2 powi e / 2 powi ?q = (2::rat) powi (e - ?q)" by (simp add: power_int_diff)
  also have "e - ?q = int k" using k by simp
  also have "of_int m * (2::rat) powi int k = of_int (m * 2 ^ k)" by simp
  finally have eq: "x / 2 powi ?q = of_int (m * 2 ^ k)" .
  have "round_half_even (x / 2 powi ?q) = m * 2 ^ k"
    unfolding eq by (rule round_half_even_of_int)
  then have "round_binary64 x = of_int (m * 2 ^ k) * 2 powi ?q"
    using False by (simp add: round_binary64_def Let_def)
  also have "\<dots> = of_int m * (2 powi int k * 2 powi ?q)" by simp
  also have "2 powi int k * 2 powi ?q = (2::rat) powi e" unfolding k by (simp add: power_int_add)
  finally show ?thesis by (simp add: assms(1))
qed

lemma round_binary64_of_int:
  "\<bar>n\<bar> < 2 ^ 53 \<Longrightarrow> round_binary64 (of_int n) = of_int n"
  by (rule round_binary64_exact [of _ n 0]) simp_all

text \<open>The rounding error, for a number in the normal range.\<close>

lemma round_binary64_error:
  assumes "2 powi (- 1022) \<le> \<bar>x\<bar>"
  shows "\<bar>round_binary64 x - x\<bar> \<le> \<bar>x\<bar> / 2 ^ 53"
proof -
  have "(0::rat) < 2 powi (- 1022)" by simp
  then have pos: "0 < \<bar>x\<bar>" using assms by (rule less_le_trans)
  then have nz: "x \<noteq> 0" by simp
  from ilog2_ge [OF pos assms] have "- 1022 \<le> ilog2 \<bar>x\<bar>" .
  then have q: "max (ilog2 \<bar>x\<bar> - 52) (- 1074) = ilog2 \<bar>x\<bar> - 52" by simp
  let ?q = "ilog2 \<bar>x\<bar> - 52"
  let ?m = "round_half_even (x / 2 powi ?q)"
  have fl: "round_binary64 x = of_int ?m * 2 powi ?q"
    using nz q by (simp add: round_binary64_def Let_def)
  have "round_binary64 x - x = (of_int ?m - x / 2 powi ?q) * 2 powi ?q"
    by (simp add: fl algebra_simps)
  then have "\<bar>round_binary64 x - x\<bar> = \<bar>of_int ?m - x / 2 powi ?q\<bar> * 2 powi ?q"
    by (simp add: abs_mult)
  also have "\<dots> \<le> 1 / 2 * 2 powi ?q"
    by (intro mult_right_mono round_half_even_error) simp
  also have "\<dots> = 2 powi (ilog2 \<bar>x\<bar>) / 2 ^ 53"
    by (simp add: power_int_diff)
  also have "\<dots> \<le> \<bar>x\<bar> / 2 ^ 53"
    using ilog2_bounds(1) [OF pos] by (simp add: divide_right_mono)
  finally show ?thesis .
qed

text \<open>Every rounded value has a 53-bit significand and an exponent in range.\<close>

lemma power_int_Suc: "(2::rat) powi (q + 1) = 2 * 2 powi q"
  by (simp add: power_int_add)

lemma round_binary64_significand:
  "\<exists>m e. round_binary64 x = of_int m * 2 powi e \<and> \<bar>m\<bar> < 2 ^ 53 \<and> - 1074 \<le> e"
proof (cases "x = 0")
  case True
  have "round_binary64 0 = of_int 0 * 2 powi 0 \<and> \<bar>0::int\<bar> < 2 ^ 53 \<and> - 1074 \<le> (0::int)" by simp
  with True show ?thesis by blast
next
  case False
  define q where "q = max (ilog2 \<bar>x\<bar> - 52) (- 1074)"
  define m where "m = round_half_even (x / 2 powi q)"
  have q: "- 1074 \<le> q" "ilog2 \<bar>x\<bar> + 1 \<le> q + 53" by (simp_all add: q_def)
  have fl: "round_binary64 x = of_int m * 2 powi q"
    using False by (simp add: round_binary64_def Let_def m_def q_def)
  have pos: "0 < \<bar>x\<bar>" using False by simp
  have "\<bar>x\<bar> < 2 powi (ilog2 \<bar>x\<bar> + 1)" using pos by (rule ilog2_bounds)
  also have "\<dots> \<le> 2 powi (q + 53)" using q(2) by (intro power_int_increasing) simp_all
  also have "\<dots> = 2 ^ 53 * 2 powi q" by (simp add: power_int_add)
  finally have "\<bar>x\<bar> / 2 powi q < 2 ^ 53" by (simp add: pos_divide_less_eq)
  moreover define y where "y = x / 2 powi q"
  then have "\<bar>y\<bar> = \<bar>x\<bar> / 2 powi q" by simp
  ultimately have "\<bar>y\<bar> < 2 ^ 53" by simp
  then have "y \<le> of_int (2 ^ 53)" "of_int (- (2 ^ 53)) \<le> y" by simp_all
  then have up: "x / 2 powi q \<le> of_int (2 ^ 53)"
    and down: "of_int (- (2 ^ 53)) \<le> x / 2 powi q"
    unfolding y_def .
  have "m \<le> 2 ^ 53" unfolding m_def using up by (rule round_half_even_le)
  moreover have "- (2 ^ 53) \<le> m" unfolding m_def using down by (rule round_half_even_ge)
  ultimately consider "\<bar>m\<bar> < 2 ^ 53" | "m = 2 ^ 53" | "m = - (2 ^ 53)" by linarith
  then show ?thesis
  proof cases
    case 1
    from fl 1 q(1) have "round_binary64 x = of_int m * 2 powi q \<and> \<bar>m\<bar> < 2 ^ 53 \<and> - 1074 \<le> q"
      by (intro conjI)
    then show ?thesis by (intro exI)
  next
    case 2
    have "round_binary64 x = of_int (2 ^ 52) * (2 * 2 powi q)" unfolding fl 2 by simp
    then have "round_binary64 x = of_int (2 ^ 52) * 2 powi (q + 1)" by (simp only: power_int_Suc)
    moreover have "\<bar>2 ^ 52 :: int\<bar> < 2 ^ 53" by simp
    moreover have "- 1074 \<le> q + 1" using q(1) by simp
    ultimately have "round_binary64 x = of_int (2 ^ 52) * 2 powi (q + 1)
        \<and> \<bar>2 ^ 52 :: int\<bar> < 2 ^ 53 \<and> - 1074 \<le> q + 1" by (intro conjI)
    then show ?thesis by (intro exI)
  next
    case 3
    have "round_binary64 x = of_int (- (2 ^ 52)) * (2 * 2 powi q)" unfolding fl 3 by simp
    then have "round_binary64 x = of_int (- (2 ^ 52)) * 2 powi (q + 1)" by (simp only: power_int_Suc)
    moreover have "\<bar>- (2 ^ 52) :: int\<bar> < 2 ^ 53" by simp
    moreover have "- 1074 \<le> q + 1" using q(1) by simp
    ultimately have "round_binary64 x = of_int (- (2 ^ 52)) * 2 powi (q + 1)
        \<and> \<bar>- (2 ^ 52) :: int\<bar> < 2 ^ 53 \<and> - 1074 \<le> q + 1" by (intro conjI)
    then show ?thesis by (intro exI)
  qed
qed

text \<open>The fractional part of a float that is not negative is a float.\<close>

lemma fractional_part_exact:
  assumes "x = of_int m * 2 powi e" "\<bar>m\<bar> < 2 ^ 53" "- 1074 \<le> e" "0 \<le> x"
  shows "round_binary64 (x - of_int \<lfloor>x\<rfloor>) = x - of_int \<lfloor>x\<rfloor>"
proof (cases "0 \<le> e")
  case True
  then have "x = of_int (m * 2 ^ nat e)" by (simp add: assms(1) power_int_def)
  then have "x - of_int \<lfloor>x\<rfloor> = 0" by simp
  then show ?thesis by simp
next
  case False
  define k where "k = nat (- e)"
  define d :: int where "d = 2 ^ k"
  have d: "0 < d" by (simp add: d_def)
  have e: "e = - int k" using False by (simp add: k_def)
  have pw: "(2::rat) powi e = 1 / of_int d" by (simp add: e d_def power_int_minus field_simps)
  have x: "x = of_int m / of_int d" by (simp add: assms(1) pw)
  have m: "0 \<le> m"
  proof (rule ccontr)
    assume "\<not> 0 \<le> m"
    then have "(of_int m :: rat) < 0" by simp
    then have "x < 0" using d by (simp add: x divide_neg_pos)
    with assms(4) show False by simp
  qed
  have fl: "\<lfloor>x\<rfloor> = m div d" unfolding x by (rule floor_divide_of_int_eq)
  have "(of_int m :: rat) = of_int (m div d) * of_int d + of_int (m mod d)"
    by (simp flip: of_int_mult of_int_add)
  then have "x - of_int (m div d) = of_int (m mod d) / of_int d"
    using d by (simp add: x field_simps)
  then have frac: "x - of_int \<lfloor>x\<rfloor> = of_int (m mod d) * 2 powi e"
    unfolding fl by (simp add: pw)
  have "0 \<le> m mod d" using d by simp
  moreover have "m mod d \<le> m" using m by (rule zmod_le_nonneg_dividend)
  ultimately have "\<bar>m mod d\<bar> < 2 ^ 53" using assms(2) by simp
  with frac show ?thesis using assms(3) by (rule round_binary64_exact)
qed

lemma round_binary64_fractional_part:
  assumes "0 \<le> x"
  shows "round_binary64 (round_binary64 x - of_int \<lfloor>round_binary64 x\<rfloor>)
           = round_binary64 x - of_int \<lfloor>round_binary64 x\<rfloor>"
proof -
  obtain m e where "round_binary64 x = of_int m * 2 powi e" "\<bar>m\<bar> < 2 ^ 53" "- 1074 \<le> e"
    using round_binary64_significand [of x] by blast
  moreover have "0 \<le> round_binary64 x" using assms by (rule round_binary64_nonneg)
  ultimately show ?thesis by (rule fractional_part_exact)
qed

lemma finite64_small: "\<bar>x\<bar> \<le> 2 ^ 53 \<Longrightarrow> finite64 x"
proof -
  assume "\<bar>x\<bar> \<le> 2 ^ 53"
  also have "(2::rat) ^ 53 < 2 ^ 1024" by (rule power_strict_increasing) simp_all
  finally show ?thesis by (simp only: finite64_def)
qed

lemma float_of_int_small: "\<bar>n\<bar> < 2 ^ 53 \<Longrightarrow> float_of_int n = Inr (of_int n)"
proof -
  assume n: "\<bar>n\<bar> < 2 ^ 53"
  then have fl: "round_binary64 (of_int n) = of_int n" by (rule round_binary64_of_int)
  from n have "(of_int \<bar>n\<bar> :: rat) \<le> of_int (2 ^ 53)" by (simp only: of_int_le_iff)
  then have "\<bar>of_int n :: rat\<bar> \<le> 2 ^ 53" by simp
  then have "finite64 (of_int n)" by (rule finite64_small)
  with fl show ?thesis by (simp add: float_of_int_def)
qed

lemma proportion_normal:
  assumes "0 < T" "T \<le> 2 ^ 1000" "1 \<le> p"
  shows "(2::rat) powi (- 1022) \<le> (of_int p / of_int T) / 2"
proof -
  define B :: rat where "B = 2 ^ 1000"
  have B: "0 < B" unfolding B_def by (rule zero_less_power) simp
  have T': "(0::rat) < of_int T" using assms(1) by simp
  have "(of_int T :: rat) \<le> of_int (2 ^ 1000)" using assms(2) by (simp only: of_int_le_iff)
  also have "(of_int (2 ^ 1000) :: rat) = B" by (simp only: B_def of_int_power of_int_numeral)
  finally have TB: "of_int T \<le> B" .
  have "(2::rat) powi (- 1022) \<le> 2 powi (- 1001)" by (intro power_int_increasing) simp_all
  also have "(2::rat) powi (- 1001) = 2 powi (- 1000 + - 1)" by simp
  also have "\<dots> = 2 powi (- 1000) * 2 powi (- 1)" by (rule power_int_add) simp
  also have "(2::rat) powi (- 1000) = inverse B"
    by (simp only: B_def power_int_minus power_int_numeral)
  also have "(2::rat) powi (- 1) = 1 / 2" by simp
  finally have "(2::rat) powi (- 1022) \<le> inverse B * (1 / 2)" .
  also have "inverse B \<le> inverse (of_int T)" using TB T' by (rule le_imp_inverse_le)
  then have "inverse B * (1 / 2) \<le> inverse (of_int T :: rat) * (1 / 2)" by (rule mult_right_mono) simp
  also have "inverse (of_int T :: rat) * (1 / 2) \<le> (of_int p / of_int T) / 2"
  proof -
    have "(1::rat) \<le> of_int p" using assms(3) by simp
    then have "1 / of_int T \<le> (of_int p :: rat) / of_int T" using T' by (simp add: divide_right_mono)
    then show ?thesis by (simp add: inverse_eq_divide)
  qed
  finally show ?thesis .
qed

text \<open>
  The float \<open>exact_allocation\<close> of a region against its exact share: for weights that are
  not negative, a total weight up to \<open>2 ^ 1000\<close> and a total below \<open>2 ^ 52\<close>, the two roundings
  cost at most the factor \<open>2 u + u\<^sup>2\<close>, where \<open>u = 2 ^ - 53\<close>.
\<close>

lemma exact_allocation_close:
  assumes p: "0 \<le> p" "p \<le> T" and T: "0 < T" "T \<le> 2 ^ 1000" and N: "0 \<le> N" "N < 2 ^ 52"
  shows "\<exists>E. exact_allocation p T N = Inr E \<and> 0 \<le> E
           \<and> region_share p T N = Inr (\<lfloor>E\<rfloor>, E - of_int \<lfloor>E\<rfloor>)
           \<and> \<bar>E - exact_share p T N\<bar> \<le> exact_share p T N * ((2 ^ 54 + 1) / 2 ^ 106)"
proof -
  define u :: rat where "u = 1 / 2 ^ 53"
  define r :: rat where "r = of_int p / of_int T"
  define s :: rat where "s = r * of_int N"
  define q1 where "q1 = round_binary64 r"
  define E where "E = round_binary64 (q1 * of_int N)"
  have u: "0 < u" "u \<le> 1 / 2" "u \<le> 1 / 4" by (simp_all add: u_def)
  have c: "2 * u + u * u = (2 ^ 54 + 1) / 2 ^ 106" by (simp add: u_def)
  have T': "(0::rat) < of_int T" using T(1) by simp
  have r: "0 \<le> r" "r \<le> 1" using p T' by (simp_all add: r_def)
  have N': "(0::rat) \<le> of_int N" using N(1) by simp
  have s: "0 \<le> s" using r(1) N' by (simp add: s_def)
  have share: "exact_share p T N = s" by (simp add: exact_share_def s_def r_def)
  have Nfl: "float_of_int N = Inr (of_int N)" using N by (intro float_of_int_small) simp
  have q1_nonneg: "0 \<le> q1" unfolding q1_def using r(1) by (rule round_binary64_nonneg)
  have E_nonneg: "0 \<le> E" unfolding E_def using q1_nonneg N' by (intro round_binary64_nonneg) simp
  have q1_err: "\<bar>q1 - r\<bar> \<le> r * u"
  proof (cases "p = 0")
    case True
    then show ?thesis by (simp add: q1_def r_def)
  next
    case False
    with p(1) have "1 \<le> p" by simp
    with T have "(2::rat) powi (- 1022) \<le> r / 2" unfolding r_def by (rule proportion_normal)
    moreover have "r / 2 \<le> \<bar>r\<bar>" using r(1) by simp
    ultimately have "2 powi (- 1022) \<le> \<bar>r\<bar>" by (rule order_trans)
    then have "\<bar>round_binary64 r - r\<bar> \<le> \<bar>r\<bar> / 2 ^ 53" by (rule round_binary64_error)
    also have "\<bar>r\<bar> / 2 ^ 53 = r * u" using r(1) by (simp add: u_def)
    finally show ?thesis unfolding q1_def .
  qed
  then have q1_le: "q1 \<le> r + r * u" and q1_ge: "r - r * u \<le> q1" by (simp_all add: abs_le_iff)
  have "r + r * u \<le> 2"
  proof -
    have "r * u \<le> 1 * 1" using r u by (intro mult_mono) simp_all
    with r(2) show ?thesis by simp
  qed
  with q1_le q1_nonneg have "\<bar>q1\<bar> \<le> 2 ^ 53" by simp
  then have "finite64 q1" by (rule finite64_small)
  then have div: "int_true_div p T = Inr q1"
    using T(1) by (simp add: int_true_div_def q1_def r_def)
  have exact: "exact_allocation p T N = Inr E"
    by (simp add: exact_allocation_def div Nfl E_def)
  have zs: "\<bar>q1 * of_int N - s\<bar> \<le> s * u"
  proof -
    have "q1 * of_int N - s = (q1 - r) * of_int N" by (simp add: s_def algebra_simps)
    then have "\<bar>q1 * of_int N - s\<bar> = \<bar>q1 - r\<bar> * of_int N" using N' by (simp add: abs_mult)
    also have "\<dots> \<le> (r * u) * of_int N" using q1_err N' by (rule mult_right_mono)
    also have "\<dots> = s * u" by (simp add: s_def)
    finally show ?thesis .
  qed
  then have z_le: "q1 * of_int N \<le> s + s * u" by (simp add: abs_le_iff)
  have E_err: "\<bar>E - q1 * of_int N\<bar> \<le> (q1 * of_int N) * u"
  proof (cases "p = 0 \<or> N = 0")
    case True
    then have z0: "q1 * of_int N = 0" by (auto simp: q1_def r_def)
    have "E = 0" unfolding E_def z0 by simp
    then show ?thesis unfolding z0 by simp
  next
    case False
    with p(1) N(1) have "1 \<le> p" "1 \<le> N" by simp_all
    then have p1: "(1::rat) \<le> of_int p" and N1: "(1::rat) \<le> of_int N" by simp_all
    from T \<open>1 \<le> p\<close> have "(2::rat) powi (- 1022) \<le> r / 2"
      unfolding r_def by (rule proportion_normal)
    also have "r / 2 \<le> r - r * u"
    proof -
      have "r * u \<le> r * (1 / 2)" using u(2) r(1) by (rule mult_left_mono)
      then show ?thesis by simp
    qed
    also have "\<dots> \<le> q1" by (rule q1_ge)
    also have "q1 = q1 * 1" by simp
    also have "q1 * 1 \<le> q1 * of_int N" using N1 q1_nonneg by (rule mult_left_mono)
    finally have lo: "2 powi (- 1022) \<le> q1 * of_int N" .
    have nn: "0 \<le> q1 * of_int N" using q1_nonneg N' by simp
    then have "q1 * of_int N \<le> \<bar>q1 * of_int N\<bar>" by simp
    with lo have "2 powi (- 1022) \<le> \<bar>q1 * of_int N\<bar>" by (rule order_trans)
    then have "\<bar>round_binary64 (q1 * of_int N) - q1 * of_int N\<bar> \<le> \<bar>q1 * of_int N\<bar> / 2 ^ 53"
      by (rule round_binary64_error)
    also have "\<bar>q1 * of_int N\<bar> / 2 ^ 53 = (q1 * of_int N) * u" using nn by (simp add: u_def)
    finally show ?thesis unfolding E_def .
  qed
  have total: "\<bar>E - s\<bar> \<le> s * (2 * u + u * u)"
  proof -
    have "\<bar>E - s\<bar> \<le> \<bar>E - q1 * of_int N\<bar> + \<bar>q1 * of_int N - s\<bar>" by simp
    also have "\<dots> \<le> (q1 * of_int N) * u + s * u" using E_err zs by (rule add_mono)
    also have "\<dots> \<le> (s + s * u) * u + s * u"
      using z_le u(1) by (intro add_right_mono mult_right_mono) simp_all
    also have "\<dots> = s * (2 * u + u * u)" by (simp add: algebra_simps)
    finally show ?thesis .
  qed
  have "finite64 E"
  proof -
    have "2 * u + u * u \<le> 1"
    proof -
      have "u * u \<le> (1 / 4) * (1 / 4)" using u by (intro mult_mono) simp_all
      with u(3) show ?thesis by simp
    qed
    then have "s * (2 * u + u * u) \<le> s * 1" using s by (rule mult_left_mono)
    with total have "E \<le> 2 * s" by (simp add: abs_le_iff)
    moreover have "s \<le> 1 * of_int N" unfolding s_def using r(2) N' by (rule mult_right_mono)
    moreover have "(of_int N :: rat) \<le> 2 ^ 52"
    proof -
      from N(2) have "N \<le> 2 ^ 52" by simp
      then have "(of_int N :: rat) \<le> of_int (2 ^ 52)" by (simp only: of_int_le_iff)
      then show ?thesis by simp
    qed
    ultimately have "E \<le> 2 ^ 53" by simp
    with E_nonneg have "\<bar>E\<bar> \<le> 2 ^ 53" by simp
    then show ?thesis by (rule finite64_small)
  qed
  moreover have "round_binary64 (E - of_int \<lfloor>E\<rfloor>) = E - of_int \<lfloor>E\<rfloor>"
    unfolding E_def using q1_nonneg N' by (intro round_binary64_fractional_part) simp
  ultimately have "region_share p T N = Inr (\<lfloor>E\<rfloor>, E - of_int \<lfloor>E\<rfloor>)"
    by (simp add: region_share_def exact Let_def)
  with exact E_nonneg total show ?thesis unfolding share c by (intro exI [of _ E] conjI)
qed

section \<open>The apportionment\<close>

subsection \<open>The two loops of the apportionment\<close>

lemma initial_allocation_shares:
  "initial_allocation regions T N allocation fractional_allocation = Inr result \<Longrightarrow>
     \<forall>rp \<in> set regions. \<exists>share. region_share (snd rp) T N = Inr share"
proof (induction regions arbitrary: allocation fractional_allocation)
  case Nil
  then show ?case by simp
next
  case (Cons a regions)
  obtain region population where a: "a = (region, population)" by (cases a)
  from Cons.prems obtain share where share: "region_share population T N = Inr share"
    by (cases "region_share population T N") (simp_all add: a)
  with Cons.prems have "initial_allocation regions T N
      (dict_set allocation region (fst share)) (dict_set fractional_allocation region (snd share))
    = Inr result"
    by (simp add: a split: prod.splits)
  from Cons.IH [OF this] share show ?case by (simp add: a)
qed

lemma initial_allocation_closed:
  assumes "\<forall>rp \<in> set regions. region_share (snd rp) T N = Inr (f (snd rp), h (snd rp))"
    and "distinct (map fst allocation @ map fst regions)"
    and "map fst fractional_allocation = map fst allocation"
  shows "initial_allocation regions T N allocation fractional_allocation
           = Inr (allocation @ map (\<lambda>rp. (fst rp, f (snd rp))) regions,
                  fractional_allocation @ map (\<lambda>rp. (fst rp, h (snd rp))) regions)"
  using assms
proof (induction regions arbitrary: allocation fractional_allocation)
  case Nil
  then show ?case by simp
next
  case (Cons a regions)
  obtain region population where a: "a = (region, population)" by (cases a)
  from Cons.prems(1) have share: "region_share population T N = Inr (f population, h population)"
    by (simp add: a)
  from Cons.prems(2) have fresh: "region \<notin> set (map fst allocation)" by (auto simp: a)
  with Cons.prems(3) have fresh': "region \<notin> set (map fst fractional_allocation)" by simp
  have s1: "dict_set allocation region (f population) = allocation @ [(region, f population)]"
    using fresh by (rule dict_set_fresh)
  have s2: "dict_set fractional_allocation region (h population)
      = fractional_allocation @ [(region, h population)]"
    using fresh' by (rule dict_set_fresh)
  have "initial_allocation regions T N (allocation @ [(region, f population)])
        (fractional_allocation @ [(region, h population)])
      = Inr ((allocation @ [(region, f population)]) @ map (\<lambda>rp. (fst rp, f (snd rp))) regions,
             (fractional_allocation @ [(region, h population)]) @ map (\<lambda>rp. (fst rp, h (snd rp))) regions)"
  proof (rule Cons.IH)
    show "\<forall>rp \<in> set regions. region_share (snd rp) T N = Inr (f (snd rp), h (snd rp))"
      using Cons.prems(1) by simp
    show "distinct (map fst (allocation @ [(region, f population)]) @ map fst regions)"
      using Cons.prems(2) by (auto simp: a)
    show "map fst (fractional_allocation @ [(region, h population)])
        = map fst (allocation @ [(region, f population)])"
      using Cons.prems(3) by simp
  qed
  then show ?case by (simp add: a share s1 s2)
qed

text \<open>The award loop adds one to the regions among the first \<open>remaining\<close> of the sorted list.\<close>

lemma fst_comp_awarded [simp]: "fst \<circ> awarded K = fst"
  by (simp add: fun_eq_iff awarded_def)

lemma map_fst_awarded [simp]: "map fst (map (awarded K) allocation) = map fst allocation"
  by simp

lemma map_awarded_empty [simp]: "map (awarded {}) allocation = allocation"
  by (induction allocation) (simp_all add: awarded_def)

lemma dict_incr_present:
  assumes "distinct (map fst allocation)" "region \<in> set (map fst allocation)"
  shows "dict_incr allocation region = Inr (map (awarded {region}) allocation)"
proof -
  from assms(2) obtain v where v: "(region, v) \<in> set allocation" by auto
  with assms(1) have look: "map_of allocation region = Some v" by simp
  have "dict_set allocation region (v + 1)
      = map (\<lambda>p. (fst p, if fst p = region then v + 1 else snd p)) allocation"
    using assms(2,1) by (rule dict_set_present)
  also have "\<dots> = map (awarded {region}) allocation"
  proof (rule map_cong [OF refl])
    fix p assume p: "p \<in> set allocation"
    show "(fst p, if fst p = region then v + 1 else snd p) = awarded {region} p"
    proof (cases "fst p = region")
      case True
      with p have "(region, snd p) \<in> set allocation" by (metis prod.collapse)
      with v assms(1) have "snd p = v" by (meson eq_key_imp_eq_value)
      with True show ?thesis by (simp add: awarded_def)
    next
      case False
      then show ?thesis by (simp add: awarded_def)
    qed
  qed
  finally show ?thesis by (simp add: dict_incr_def look)
qed

lemma award_closed:
  assumes "distinct (map fst allocation)" "distinct (map fst sorted_regions)"
    and "set (map fst sorted_regions) \<subseteq> set (map fst allocation)" "0 \<le> remaining"
  shows "award allocation sorted_regions remaining
           = Inr (map (awarded (set (map fst (take (nat remaining) sorted_regions)))) allocation)"
  using assms
proof (induction sorted_regions arbitrary: allocation remaining)
  case Nil
  show ?case by simp
next
  case (Cons a sorted_regions)
  obtain region fractional where a: "a = (region, fractional)" by (cases a)
  show ?case
  proof (cases "remaining = 0")
    case True
    from True show ?thesis by (simp add: a)
  next
    case False
    with Cons.prems(4) have pos: "0 < remaining" by simp
    then obtain k where k: "nat remaining = Suc k" "nat (remaining - 1) = k"
      by (metis Suc_nat_eq_nat_zadd1 add.commute diff_add_cancel diff_ge_0_iff_ge int_one_le_iff_zero_less nat_int of_nat_Suc)
    let ?K = "set (map fst (take k sorted_regions))"
    from Cons.prems(3) have mem: "region \<in> set (map fst allocation)" by (simp add: a)
    have incr: "dict_incr allocation region = Inr (map (awarded {region}) allocation)"
      using Cons.prems(1) mem by (rule dict_incr_present)
    have "award (map (awarded {region}) allocation) sorted_regions (remaining - 1)
        = Inr (map (awarded (set (map fst (take (nat (remaining - 1)) sorted_regions))))
            (map (awarded {region}) allocation))"
    proof (rule Cons.IH)
      show "distinct (map fst (map (awarded {region}) allocation))" using Cons.prems(1) by simp
      show "distinct (map fst sorted_regions)" using Cons.prems(2) by simp
      show "set (map fst sorted_regions) \<subseteq> set (map fst (map (awarded {region}) allocation))"
        using Cons.prems(3) by simp
      show "0 \<le> remaining - 1" using pos by simp
    qed
    also have "map (awarded (set (map fst (take (nat (remaining - 1)) sorted_regions))))
          (map (awarded {region}) allocation)
        = map (awarded (insert region ?K)) allocation"
    proof -
      from Cons.prems(2) have "region \<notin> set (map fst sorted_regions)" by (simp add: a)
      then have "region \<notin> ?K" by (auto dest: in_set_takeD)
      then have "awarded ?K (awarded {region} p) = awarded (insert region ?K) p" for p :: "'a \<times> int"
        by (cases p) (auto simp: awarded_def)
      then show ?thesis by (simp add: k)
    qed
    finally show ?thesis using False by (simp add: a incr k)
  qed
qed

lemma sum_awarded:
  assumes "distinct (map fst allocation)" "K \<subseteq> set (map fst allocation)"
  shows "sum_list (map snd (map (awarded K) allocation))
           = sum_list (map snd allocation) + int (card K)"
proof -
  have "sum_list (map snd (map (awarded K) allocation))
      = sum_list (map snd allocation) + int (length (filter (\<lambda>p. fst p \<in> K) allocation))"
    by (induction allocation) (auto simp: awarded_def)
  also have "length (filter (\<lambda>p. fst p \<in> K) allocation)
      = length (filter (\<lambda>k. k \<in> K) (map fst allocation))"
    by (simp add: filter_map o_def)
  also have "\<dots> = card ({k. k \<in> K} \<inter> set (map fst allocation))"
    using assms(1) by (rule distinct_length_filter)
  also have "{k. k \<in> K} \<inter> set (map fst allocation) = K" using assms(2) by auto
  finally show ?thesis .
qed

subsection \<open>The stable descending sort\<close>

lemma mset_sorted_reverse [simp]: "mset (sorted_reverse items) = mset items"
  by (simp add: sorted_reverse_def)

lemma set_sorted_reverse [simp]: "set (sorted_reverse items) = set items"
  by (simp add: sorted_reverse_def)

lemma length_sorted_reverse [simp]: "length (sorted_reverse items) = length items"
  by (simp add: sorted_reverse_def)

lemma distinct_keys_sorted_reverse:
  "distinct (map fst (sorted_reverse items)) = distinct (map fst items)"
proof -
  have "mset (map fst (sorted_reverse items)) = mset (map fst items)" by simp
  then show ?thesis by (rule mset_eq_imp_distinct_iff)
qed

lemma sorted_sorted_reverse: "sorted (map (\<lambda>x. - snd x) (sorted_reverse items))"
  by (simp add: sorted_reverse_def)

lemma filter_sorted_reverse:
  "length (filter P (sorted_reverse items)) = length (filter P items)"
proof -
  have "mset (filter P (sorted_reverse items)) = mset (filter P items)" by simp
  then show ?thesis by (rule mset_eq_length)
qed

lemma sorted_wrt_insort_key:
  assumes "sorted (map f L)" "sorted_wrt R L"
    and "\<forall>y \<in> set L. f a \<le> f y \<longrightarrow> R a y" "\<forall>y \<in> set L. f y < f a \<longrightarrow> R y a"
  shows "sorted_wrt R (insort_key f a L)"
  using assms
proof (induction L)
  case Nil
  then show ?case by simp
next
  case (Cons y L)
  show ?case
  proof (cases "f a \<le> f y")
    case True
    have "R a z" if "z \<in> set (y # L)" for z
    proof -
      from Cons.prems(1) that have "f y \<le> f z" by auto
      with True have "f a \<le> f z" by simp
      with Cons.prems(3) that show ?thesis by blast
    qed
    with True Cons.prems(2) show ?thesis by simp
  next
    case False
    then have lt: "f y < f a" by simp
    with Cons.prems(4) have "R y a" by simp
    moreover have "sorted_wrt R (insort_key f a L)"
      using Cons.prems by (intro Cons.IH) simp_all
    ultimately show ?thesis using False Cons.prems(2) by (auto simp: set_insort_key)
  qed
qed

text \<open>
  In the sorted list, an item stands before another only if its remainder is larger, or
  the two remainders are equal and it stood before the other in the dictionary.
\<close>

lemma sorted_reverse_order:
  assumes "distinct items"
  shows "sorted_wrt (\<lambda>x y. snd y < snd x
            \<or> (snd x = snd y \<and> (\<exists>i j. i < j \<and> j < length items \<and> items ! i = x \<and> items ! j = y)))
          (sorted_reverse items)"
  using assms
proof (induction items)
  case Nil
  then show ?case by (simp add: sorted_reverse_def)
next
  case (Cons a items)
  let ?f = "\<lambda>x :: 'a \<times> rat. - snd x"
  let ?R = "\<lambda>items x y. snd y < snd x
            \<or> (snd x = snd y \<and> (\<exists>i j. i < j \<and> j < length items \<and> items ! i = x \<and> items ! j = y))"
  from Cons have IH: "sorted_wrt (?R items) (sort_key ?f items)" by (simp add: sorted_reverse_def)
  have shift: "?R (a # items) x y" if "?R items x y" for x y
  proof -
    from that consider "snd y < snd x"
      | i j where "snd x = snd y" "i < j" "j < length items" "items ! i = x" "items ! j = y"
      by blast
    then show ?thesis
    proof cases
      case 1
      then show ?thesis by simp
    next
      case 2
      then have "Suc i < Suc j \<and> Suc j < length (a # items)
          \<and> (a # items) ! Suc i = x \<and> (a # items) ! Suc j = y" by simp
      with 2(1) show ?thesis by blast
    qed
  qed
  have "sorted_wrt (?R (a # items)) (insort_key ?f a (sort_key ?f items))"
  proof (rule sorted_wrt_insort_key)
    show "sorted (map ?f (sort_key ?f items))" by simp
    show "sorted_wrt (?R (a # items)) (sort_key ?f items)"
      using IH by (rule sorted_wrt_mono_rel [rotated]) (rule shift)
    show "\<forall>y \<in> set (sort_key ?f items). ?f a \<le> ?f y \<longrightarrow> ?R (a # items) a y"
    proof (intro ballI impI)
      fix y assume y: "y \<in> set (sort_key ?f items)" and le: "?f a \<le> ?f y"
      from y obtain j where j: "j < length items" "items ! j = y"
        by (auto simp: in_set_conv_nth)
      then have "0 < Suc j \<and> Suc j < length (a # items)
          \<and> (a # items) ! 0 = a \<and> (a # items) ! Suc j = y" by simp
      then have "\<exists>i j. i < j \<and> j < length (a # items) \<and> (a # items) ! i = a \<and> (a # items) ! j = y"
        by blast
      moreover from le have "snd y < snd a \<or> snd a = snd y" by auto
      ultimately show "?R (a # items) a y" by blast
    qed
    show "\<forall>y \<in> set (sort_key ?f items). ?f y < ?f a \<longrightarrow> ?R (a # items) y a" by simp
  qed
  then show ?case by (simp add: sorted_reverse_def)
qed

text \<open>A property that only the items of largest key have holds of a prefix of the sorted list.\<close>

lemma sorted_prefix_filter:
  assumes "sorted (map f L)" "\<forall>x \<in> set L. \<forall>y \<in> set L. P x \<and> \<not> P y \<longrightarrow> f x < f y"
  shows "take (length (filter P L)) L = filter P L"
  using assms
proof (induction L)
  case Nil
  then show ?case by simp
next
  case (Cons a L)
  from Cons.prems have IH: "take (length (filter P L)) L = filter P L"
    by (intro Cons.IH) simp_all
  show ?case
  proof (cases "P a")
    case True
    with IH show ?thesis by simp
  next
    case False
    have "\<not> P y" if "y \<in> set L" for y
    proof
      assume "P y"
      with False Cons.prems(2) that have "f y < f a" by simp
      moreover from Cons.prems(1) that have "f a \<le> f y" by simp
      ultimately show False by simp
    qed
    then have "filter P L = []" by (simp add: filter_empty_conv)
    with False show ?thesis by simp
  qed
qed

lemma sorted_prefix_only:
  assumes "sorted (map f L)" "\<forall>x \<in> set L. \<forall>y \<in> set L. P x \<and> \<not> P y \<longrightarrow> f x < f y"
    and "k \<le> length (filter P L)" "x \<in> set (take k L)"
  shows "P x"
proof -
  from assms(3) have "take k L = take k (take (length (filter P L)) L)" by (simp add: min_def)
  also have "\<dots> = take k (filter P L)" using assms(1,2) by (simp only: sorted_prefix_filter)
  finally have "x \<in> set (take k (filter P L))" using assms(4) by simp
  then have "x \<in> set (filter P L)" by (rule in_set_takeD)
  then show ?thesis by simp
qed

lemma sorted_prefix_all:
  assumes "sorted (map f L)" "\<forall>x \<in> set L. \<forall>y \<in> set L. P x \<and> \<not> P y \<longrightarrow> f x < f y"
    and "length (filter P L) \<le> k" "x \<in> set L" "P x"
  shows "x \<in> set (take k L)"
proof -
  from assms(4,5) have "x \<in> set (filter P L)" by simp
  also have "filter P L = take (length (filter P L)) L"
    using assms(1,2) by (simp only: sorted_prefix_filter)
  also have "set \<dots> \<subseteq> set (take k L)" using assms(3) by (rule set_take_subset_set_take)
  finally show ?thesis .
qed

lemma allocate_closed:
  assumes "distinct (map fst regions)"
    and "initial_allocation regions (sum_list (map snd regions)) total_hospitals [] []
           = Inr (base, remainders)"
  shows "map fst base = map fst regions" "map fst remainders = map fst regions"
    and "\<forall>i < length regions. region_share (snd (regions ! i)) (sum_list (map snd regions)) total_hospitals
           = Inr (snd (base ! i), snd (remainders ! i))"
    and "fst (allocate_hospitals_proportional R regions total_hospitals seed g)
           = Inr (map (awarded (set (map fst (take (nat (total_hospitals - sum_list (map snd base)))
                    (sorted_reverse remainders))))) base)"
proof -
  let ?T = "sum_list (map snd regions)"
  define f where "f p = fst (projr (region_share p ?T total_hospitals))" for p
  define h where "h p = snd (projr (region_share p ?T total_hospitals))" for p
  have shares: "\<forall>rp \<in> set regions. region_share (snd rp) ?T total_hospitals = Inr (f (snd rp), h (snd rp))"
  proof
    fix rp assume "rp \<in> set regions"
    with initial_allocation_shares [OF assms(2)]
    obtain share where "region_share (snd rp) ?T total_hospitals = Inr share" by blast
    then show "region_share (snd rp) ?T total_hospitals = Inr (f (snd rp), h (snd rp))"
      by (simp add: f_def h_def)
  qed
  have "initial_allocation regions ?T total_hospitals [] []
      = Inr ([] @ map (\<lambda>rp. (fst rp, f (snd rp))) regions, [] @ map (\<lambda>rp. (fst rp, h (snd rp))) regions)"
    using shares by (rule initial_allocation_closed) (simp_all add: assms(1))
  with assms(2) have base: "base = map (\<lambda>rp. (fst rp, f (snd rp))) regions"
    and rems: "remainders = map (\<lambda>rp. (fst rp, h (snd rp))) regions" by simp_all
  show keys: "map fst base = map fst regions" by (simp add: base o_def)
  show keys': "map fst remainders = map fst regions" by (simp add: rems o_def)
  show "\<forall>i < length regions. region_share (snd (regions ! i)) ?T total_hospitals
           = Inr (snd (base ! i), snd (remainders ! i))"
    using shares by (simp add: base rems)
  let ?remaining = "total_hospitals - sum_list (map snd base)"
  let ?K = "set (map fst (take (nat ?remaining) (sorted_reverse remainders)))"
  have "(if 0 < ?remaining then award base (sorted_reverse remainders) ?remaining else Inr base)
      = Inr (map (awarded ?K) base)"
  proof (cases "0 < ?remaining")
    case True
    have "award base (sorted_reverse remainders) ?remaining = Inr (map (awarded ?K) base)"
    proof (rule award_closed)
      show "distinct (map fst base)" using assms(1) by (simp only: keys)
      show "distinct (map fst (sorted_reverse remainders))"
        using assms(1) by (simp only: distinct_keys_sorted_reverse keys')
      have "set (map fst (sorted_reverse remainders)) = set (map fst remainders)" by simp
      then show "set (map fst (sorted_reverse remainders)) \<subseteq> set (map fst base)"
        by (simp only: keys keys')
      show "0 \<le> ?remaining" using True by simp
    qed
    with True show ?thesis by simp
  next
    case False
    then have "nat ?remaining = 0" by simp
    then have "map (awarded ?K) base = base" by simp
    with False show ?thesis by simp
  qed
  then show "fst (allocate_hospitals_proportional R regions total_hospitals seed g)
      = Inr (map (awarded ?K) base)"
    by (simp add: allocate_hospitals_proportional_def Let_def assms(2))
qed

lemma card_take_keys:
  assumes "distinct (map fst items)"
  shows "card (set (map fst (take k items))) = min k (length items)"
proof -
  have "distinct (take k (map fst items))" using assms by (rule distinct_take)
  then have "distinct (map fst (take k items))" by (simp add: take_map)
  then have "card (set (map fst (take k items))) = length (map fst (take k items))"
    by (rule distinct_card)
  then show ?thesis by (simp add: min.commute)
qed

lemma key_in_prefix:
  assumes "distinct (map fst items)" "i < length items"
  shows "fst (items ! i) \<in> set (map fst (take k (sorted_reverse items)))
           \<longleftrightarrow> items ! i \<in> set (take k (sorted_reverse items))"
proof
  assume "fst (items ! i) \<in> set (map fst (take k (sorted_reverse items)))"
  then obtain x where x: "x \<in> set (take k (sorted_reverse items))" "fst x = fst (items ! i)" by auto
  from x(1) have "x \<in> set items" by (auto dest: in_set_takeD)
  moreover have "items ! i \<in> set items" using assms(2) by simp
  moreover have "inj_on fst (set items)" using assms(1) by (simp add: distinct_map)
  ultimately have "x = items ! i" using x(2) by (meson inj_onD)
  with x(1) show "items ! i \<in> set (take k (sorted_reverse items))" by simp
next
  assume "items ! i \<in> set (take k (sorted_reverse items))"
  then show "fst (items ! i) \<in> set (map fst (take k (sorted_reverse items)))" by simp
qed

lemma nth_key:
  assumes "map fst xs = map fst ys" "i < length ys"
  shows "fst (xs ! i) = fst (ys ! i)"
proof -
  from assms(1) have len: "length xs = length ys" by (rule map_eq_imp_length_eq)
  from assms(1) have "map fst xs ! i = map fst ys ! i" by simp
  with len assms(2) show ?thesis by simp
qed

lemma int_min_nat: "int (min (nat r) n) = max 0 (min r (int n))"
proof (cases "0 \<le> r")
  case True
  then obtain m where "r = int m" by (metis nonneg_int_cases)
  then show ?thesis by (simp add: min_def max_def)
next
  case False
  then show ?thesis by (simp add: min_def max_def)
qed

lemma award_order:
  assumes "distinct (map fst regions)"
    and "initial_allocation regions (sum_list (map snd regions)) total_hospitals [] []
           = Inr (base, remainders)"
  shows "\<exists>allocation.
      fst (allocate_hospitals_proportional R regions total_hospitals seed g) = Inr allocation
      \<and> map fst allocation = map fst regions
      \<and> (\<forall>i < length regions. snd (allocation ! i) = snd (base ! i)
             \<or> snd (allocation ! i) = snd (base ! i) + 1)
      \<and> sum_list (map snd allocation) = sum_list (map snd base)
           + max 0 (min (total_hospitals - sum_list (map snd base)) (int (length regions)))
      \<and> (\<forall>i < length regions. \<forall>j < length regions.
            snd (allocation ! i) = snd (base ! i) + 1 \<and> snd (allocation ! j) = snd (base ! j)
            \<longrightarrow> snd (remainders ! j) < snd (remainders ! i)
                \<or> (snd (remainders ! i) = snd (remainders ! j) \<and> i < j))"
proof -
  let ?n = "length regions"
  let ?k = "nat (total_hospitals - sum_list (map snd base))"
  let ?S = "sorted_reverse remainders"
  let ?K = "set (map fst (take ?k ?S))"
  let ?alloc = "map (awarded ?K) base"
  note closed = allocate_closed [OF assms]
  have keys: "map fst base = map fst regions" by (rule closed(1))
  have keys': "map fst remainders = map fst regions" by (rule closed(2))
  have len: "length base = ?n" "length remainders = ?n"
    using keys keys' by (auto dest: map_eq_imp_length_eq)
  have dist_base: "distinct (map fst base)" and dist_rem: "distinct (map fst remainders)"
    using assms(1) by (simp_all only: keys keys')
  have dist_items: "distinct remainders" using dist_rem by (rule distinct_map [THEN iffD1, THEN conjunct1])
  have nth: "?alloc ! i = awarded ?K (base ! i)" if "i < ?n" for i using that len by simp
  have raised: "snd (?alloc ! i) = snd (base ! i) + 1 \<longleftrightarrow> fst (remainders ! i) \<in> ?K"
    and kept: "snd (?alloc ! i) = snd (base ! i) \<longleftrightarrow> fst (remainders ! i) \<notin> ?K"
    if "i < ?n" for i
  proof -
    have "fst (base ! i) = fst (remainders ! i)"
      using keys keys' that by (simp add: nth_key [of base regions] nth_key [of remainders regions])
    then show "snd (?alloc ! i) = snd (base ! i) + 1 \<longleftrightarrow> fst (remainders ! i) \<in> ?K"
      and "snd (?alloc ! i) = snd (base ! i) \<longleftrightarrow> fst (remainders ! i) \<notin> ?K"
      using nth [OF that] by (simp_all add: awarded_def)
  qed
  have total: "sum_list (map snd ?alloc) = sum_list (map snd base)
      + max 0 (min (total_hospitals - sum_list (map snd base)) (int ?n))"
  proof -
    have "set (take ?k ?S) \<subseteq> set ?S" by (rule set_take_subset)
    then have "fst ` set (take ?k ?S) \<subseteq> fst ` set ?S" by (rule image_mono)
    then have "?K \<subseteq> set (map fst remainders)" by simp
    then have "?K \<subseteq> set (map fst base)" by (simp only: keys keys')
    with dist_base have "sum_list (map snd ?alloc) = sum_list (map snd base) + int (card ?K)"
      by (rule sum_awarded)
    also have "card ?K = min ?k (length ?S)"
      using dist_rem by (intro card_take_keys) (simp only: distinct_keys_sorted_reverse)
    also have "length ?S = ?n" using len by simp
    finally show ?thesis by (simp only: int_min_nat)
  qed
  have order: "snd (remainders ! j) < snd (remainders ! i)
      \<or> (snd (remainders ! i) = snd (remainders ! j) \<and> i < j)"
    if i: "i < ?n" and j: "j < ?n"
      and up: "snd (?alloc ! i) = snd (base ! i) + 1" and same: "snd (?alloc ! j) = snd (base ! j)"
    for i j
  proof -
    let ?x = "remainders ! i" and ?y = "remainders ! j"
    have i': "i < length remainders" and j': "j < length remainders" using i j len by simp_all
    from raised [OF i] up have "fst ?x \<in> ?K" by simp
    with key_in_prefix [OF dist_rem i', of ?k] have x: "?x \<in> set (take ?k ?S)" by blast
    from kept [OF j] same have "fst ?y \<notin> ?K" by simp
    with key_in_prefix [OF dist_rem j', of ?k] have "?y \<notin> set (take ?k ?S)" by blast
    moreover have "?y \<in> set (take ?k ?S @ drop ?k ?S)" using j len by simp
    ultimately have y: "?y \<in> set (drop ?k ?S)" by (simp only: set_append Un_iff) simp
    have "sorted_wrt (\<lambda>x y. snd y < snd x
            \<or> (snd x = snd y \<and> (\<exists>i j. i < j \<and> j < length remainders
                  \<and> remainders ! i = x \<and> remainders ! j = y)))
          (take ?k ?S @ drop ?k ?S)"
      using sorted_reverse_order [OF dist_items] by simp
    with x y have "snd ?y < snd ?x
        \<or> (snd ?x = snd ?y \<and> (\<exists>i' j'. i' < j' \<and> j' < length remainders
              \<and> remainders ! i' = ?x \<and> remainders ! j' = ?y))"
      unfolding sorted_wrt_append by blast
    moreover have "i < j" if "i' < j'" "j' < length remainders"
        "remainders ! i' = ?x" "remainders ! j' = ?y" for i' j'
    proof -
      from that i j len dist_items have "i' = i" "j' = j"
        by (simp_all add: nth_eq_iff_index_eq)
      with that(1) show ?thesis by simp
    qed
    ultimately show ?thesis by blast
  qed
  show ?thesis
  proof (intro exI [of _ ?alloc] conjI allI impI)
    show "fst (allocate_hospitals_proportional R regions total_hospitals seed g) = Inr ?alloc"
      by (rule closed(4))
    show "map fst ?alloc = map fst regions" using keys by simp
    show "snd (?alloc ! i) = snd (base ! i) \<or> snd (?alloc ! i) = snd (base ! i) + 1"
      if "i < ?n" for i using raised [OF that] kept [OF that] by blast
    show "sum_list (map snd ?alloc) = sum_list (map snd base)
      + max 0 (min (total_hospitals - sum_list (map snd base)) (int ?n))" by (rule total)
    show "snd (remainders ! j) < snd (remainders ! i)
        \<or> (snd (remainders ! i) = snd (remainders ! j) \<and> i < j)"
      if "i < ?n" "j < ?n"
        "snd (?alloc ! i) = snd (base ! i) + 1 \<and> snd (?alloc ! j) = snd (base ! j)" for i j
      using order [of i j] that by blast
  qed
qed

subsection \<open>The leftover after the floor step\<close>

lemma int_member_le_sum_list:
  "\<forall>x \<in> set xs. (0::int) \<le> x \<Longrightarrow> x \<in> set xs \<Longrightarrow> x \<le> sum_list xs"
proof (induction xs)
  case Nil
  then show ?case by simp
next
  case (Cons a xs)
  from Cons.prems(1) have "0 \<le> sum_list xs" by (intro sum_list_nonneg) simp
  with Cons show ?case by auto
qed

lemma of_int_sum_list_map:
  "(of_int (sum_list (map f xs)) :: rat) = sum_list (map (\<lambda>x. of_int (f x)) xs)"
  by (induction xs) simp_all

lemma sum_list_shares:
  "sum_list (map (\<lambda>rp. exact_share (snd rp) T N) regions)
     = of_int (sum_list (map snd regions)) / of_int T * of_int N"
  by (induction regions) (simp_all add: exact_share_def add_divide_distrib distrib_right)

lemma sum_list_le_count:
  fixes g :: "'a \<Rightarrow> rat"
  assumes "\<forall>x \<in> set xs. g x \<le> (if P x then 1 else 0)"
  shows "sum_list (map g xs) \<le> of_nat (length (filter P xs))"
  using assms
proof (induction xs)
  case Nil
  then show ?case by simp
next
  case (Cons a xs)
  from Cons.prems have "sum_list (map g xs) \<le> of_nat (length (filter P xs))"
    by (intro Cons.IH) simp
  moreover from Cons.prems have "g a \<le> (if P a then 1 else 0)" by simp
  ultimately show ?case by (cases "P a") simp_all
qed

lemma sum_list_ge_count:
  fixes g :: "'a \<Rightarrow> rat"
  assumes "\<forall>x \<in> set xs. (if P x then 1 else 0) \<le> g x"
  shows "of_nat (length (filter P xs)) \<le> sum_list (map g xs)"
  using assms
proof (induction xs)
  case Nil
  then show ?case by simp
next
  case (Cons a xs)
  from Cons.prems have "of_nat (length (filter P xs)) \<le> sum_list (map g xs)"
    by (intro Cons.IH) simp
  moreover from Cons.prems have "(if P a then 1 else 0) \<le> g a" by simp
  ultimately show ?case by (cases "P a") simp_all
qed

lemma roundoff_total:
  assumes "0 \<le> N" "N < 2 ^ 52"
  shows "(of_int N :: rat) * ((2 ^ 54 + 1) / 2 ^ 106) < 1"
proof -
  from assms(2) have "N \<le> 2 ^ 52 - 1" by simp
  then have "(of_int N :: rat) \<le> of_int (2 ^ 52 - 1)" by (simp only: of_int_le_iff)
  then have "(of_int N :: rat) * ((2 ^ 54 + 1) / 2 ^ 106)
      \<le> of_int (2 ^ 52 - 1) * ((2 ^ 54 + 1) / 2 ^ 106)"
    by (rule mult_right_mono) simp
  also have "\<dots> < 1" by simp
  finally show ?thesis .
qed

text \<open>
  The setting of claims C1 and C2: weights that are not negative, with a positive sum of
  at most \<open>2 ^ 1000\<close>, and a total from \<open>0\<close> to below \<open>2 ^ 52\<close>. Then no operation
  fails, and the leftover \<open>remaining\<close> is at least \<open>0\<close> and at most the number of regions
  whose float share has a fractional part.
\<close>

lemma apportion_bounds:
  fixes regions :: "('r \<times> int) list"
  assumes nonneg: "\<forall>rp \<in> set regions. 0 \<le> snd rp"
    and T: "0 < sum_list (map snd regions)" "sum_list (map snd regions) \<le> 2 ^ 1000"
    and N: "0 \<le> N" "N < 2 ^ 52"
    and dist: "distinct (map fst regions)"
  defines "T \<equiv> sum_list (map snd regions)"
  defines "E \<equiv> \<lambda>p. projr (exact_allocation p T N)"
  defines "base \<equiv> map (\<lambda>rp. (fst rp, \<lfloor>E (snd rp)\<rfloor>)) regions"
  defines "remainders \<equiv> map (\<lambda>rp. (fst rp, E (snd rp) - of_int \<lfloor>E (snd rp)\<rfloor>)) regions"
  shows "initial_allocation regions T N [] [] = Inr (base, remainders)"
    and "\<forall>rp \<in> set regions. exact_allocation (snd rp) T N = Inr (E (snd rp))"
    and "0 \<le> N - sum_list (map snd base)"
    and "nat (N - sum_list (map snd base)) \<le> length (filter (\<lambda>x. 0 < snd x) remainders)"
proof -
  let ?c = "(2 ^ 54 + 1) / 2 ^ 106 :: rat"
  let ?s = "\<lambda>rp. exact_share (snd rp) T N"
  let ?e = "\<lambda>rp :: 'r \<times> int. E (snd rp)"
  let ?y = "\<lambda>rp. ?e rp - of_int \<lfloor>?e rp\<rfloor>"
  have region: "exact_allocation (snd rp) T N = Inr (?e rp) \<and> 0 \<le> ?e rp
      \<and> region_share (snd rp) T N = Inr (\<lfloor>?e rp\<rfloor>, ?y rp)
      \<and> \<bar>?e rp - ?s rp\<bar> \<le> ?s rp * ?c"
    if "rp \<in> set regions" for rp
  proof -
    from that nonneg have p: "0 \<le> snd rp" by simp
    from that have "snd rp \<in> set (map snd regions)" by simp
    with nonneg have "snd rp \<le> T" unfolding T_def by (intro int_member_le_sum_list) simp_all
    with p T N obtain E' where E': "exact_allocation (snd rp) T N = Inr E'" "0 \<le> E'"
      "region_share (snd rp) T N = Inr (\<lfloor>E'\<rfloor>, E' - of_int \<lfloor>E'\<rfloor>)"
      "\<bar>E' - exact_share (snd rp) T N\<bar> \<le> exact_share (snd rp) T N * ?c"
      unfolding T_def [symmetric] using exact_allocation_close [of "snd rp" T N] by blast
    from E'(1) have "?e rp = E'" by (simp add: E_def)
    with E' show ?thesis by simp
  qed
  show "\<forall>rp \<in> set regions. exact_allocation (snd rp) T N = Inr (E (snd rp))"
    using region by blast
  have "initial_allocation regions T N [] []
      = Inr ([] @ map (\<lambda>rp. (fst rp, \<lfloor>E (snd rp)\<rfloor>)) regions,
             [] @ map (\<lambda>rp. (fst rp, E (snd rp) - of_int \<lfloor>E (snd rp)\<rfloor>)) regions)"
    using region dist by (intro initial_allocation_closed) simp_all
  then show "initial_allocation regions T N [] [] = Inr (base, remainders)"
    by (simp add: base_def remainders_def)
  have sum_base: "of_int (sum_list (map snd base)) = sum_list (map (\<lambda>rp. of_int \<lfloor>?e rp\<rfloor> :: rat) regions)"
    by (simp add: base_def o_def of_int_sum_list_map)
  have "sum_list (map ?s regions) = of_int T / of_int T * of_int N"
    unfolding T_def by (rule sum_list_shares)
  then have sum_shares: "sum_list (map ?s regions) = of_int N" using T(1) by (simp add: T_def)
  define D where "D = sum_list (map (\<lambda>rp. ?s rp - ?e rp) regions)"
  define Y where "Y = sum_list (map ?y regions)"
  have split: "(of_int (N - sum_list (map snd base)) :: rat) = D + Y"
    by (simp add: sum_base D_def Y_def sum_shares [symmetric] sum_list_subtractf sum_list_addf)
  have "\<bar>D\<bar> \<le> sum_list (map (\<lambda>rp. \<bar>?s rp - ?e rp\<bar>) regions)"
    unfolding D_def using sum_list_abs [of "map (\<lambda>rp. ?s rp - ?e rp) regions"] by (simp add: o_def)
  also have "\<dots> \<le> sum_list (map (\<lambda>rp. ?s rp * ?c) regions)"
  proof (rule sum_list_mono)
    fix rp assume "rp \<in> set regions"
    from region [OF this] show "\<bar>?s rp - ?e rp\<bar> \<le> ?s rp * ?c" by (simp add: abs_minus_commute)
  qed
  also have "\<dots> = of_int N * ?c" by (simp only: sum_list_mult_const sum_shares)
  also have "\<dots> < 1" using N by (rule roundoff_total)
  finally have D: "\<bar>D\<bar> < 1" .
  have "0 \<le> Y" unfolding Y_def
  proof (rule sum_list_nonneg)
    fix x assume "x \<in> set (map ?y regions)"
    then obtain rp where "x = ?y rp" by auto
    moreover have "of_int \<lfloor>?e rp\<rfloor> \<le> ?e rp" by simp
    ultimately show "0 \<le> x" by simp
  qed
  with D split have "(of_int (- 1) :: rat) < of_int (N - sum_list (map snd base))" by simp
  then have "- 1 < N - sum_list (map snd base)" by (simp only: of_int_less_iff)
  then show rem: "0 \<le> N - sum_list (map snd base)" by simp
  have "Y \<le> of_nat (length (filter (\<lambda>rp. 0 < ?y rp) regions))" unfolding Y_def
  proof (rule sum_list_le_count, rule ballI)
    fix rp assume "rp \<in> set regions"
    have "?e rp < of_int \<lfloor>?e rp\<rfloor> + 1" by linarith
    then show "?y rp \<le> (if 0 < ?y rp then 1 else 0)" by simp
  qed
  also have "length (filter (\<lambda>rp. 0 < ?y rp) regions) = length (filter (\<lambda>x. 0 < snd x) remainders)"
    by (simp add: remainders_def filter_map o_def)
  finally have "(of_int (N - sum_list (map snd base)) :: rat)
      < of_int (1 + int (length (filter (\<lambda>x. 0 < snd x) remainders)))"
    using D split by simp
  then have "N - sum_list (map snd base) < 1 + int (length (filter (\<lambda>x. 0 < snd x) remainders))"
    by (simp only: of_int_less_iff)
  with rem show "nat (N - sum_list (map snd base)) \<le> length (filter (\<lambda>x. 0 < snd x) remainders)"
    by simp
qed

text \<open>
  With \<open>total_weight * total \<le> 2 ^ 50\<close> the rounding error of a share is less than half
  of \<open>1 / total_weight\<close>, the distance between two possible values of an exact share. The
  distance \<open>t\<close> of the exact share from the floor of the float share is then \<open>0\<close>, \<open>1\<close>
  or in between, and the fractional part \<open>y\<close> of the float tells which.
\<close>

lemma share_classes:
  assumes p: "0 \<le> p" "p \<le> T" and T: "0 < T" "T \<le> 2 ^ 1000" and N: "0 \<le> N" "T * N \<le> 2 ^ 50"
  shows "\<exists>E. exact_allocation p T N = Inr E
      \<and> 0 \<le> exact_share p T N - of_int \<lfloor>E\<rfloor> \<and> exact_share p T N - of_int \<lfloor>E\<rfloor> \<le> 1
      \<and> (exact_share p T N - of_int \<lfloor>E\<rfloor> = 1 \<longleftrightarrow> 1 - 1 / (2 * of_int T) < E - of_int \<lfloor>E\<rfloor>)
      \<and> (exact_share p T N - of_int \<lfloor>E\<rfloor> = 0 \<longleftrightarrow> E - of_int \<lfloor>E\<rfloor> \<le> 1 / (2 * of_int T))"
proof -
  define c :: rat where "c = (2 ^ 54 + 1) / 2 ^ 106"
  define T' :: rat where "T' = of_int T"
  define N' :: rat where "N' = of_int N"
  define s where "s = exact_share p T N"
  have T': "1 \<le> T'" "0 < T'" using T(1) by (simp_all add: T'_def)
  have N': "0 \<le> N'" using N(1) by (simp add: N'_def)
  have "N * 1 \<le> N * T" using N(1) T(1) by (intro mult_left_mono) simp_all
  with N(2) have "N \<le> 2 ^ 50" by (simp add: mult.commute)
  then have N52: "N < 2 ^ 52" by simp
  from exact_allocation_close [OF p T N(1) N52] obtain E where
    E: "exact_allocation p T N = Inr E" "0 \<le> E" "\<bar>E - s\<bar> \<le> s * c"
    unfolding s_def c_def by blast
  define y where "y = E - of_int \<lfloor>E\<rfloor>"
  define t where "t = s - of_int \<lfloor>E\<rfloor>"
  define m where "m = p * N - \<lfloor>E\<rfloor> * T"
  define \<eta> where "\<eta> = N' * c"
  define \<theta> where "\<theta> = 1 / (2 * T')"
  have c: "0 \<le> c" by (simp add: c_def)
  have s: "s = of_int p / T' * N'" by (simp add: s_def exact_share_def T'_def N'_def)
  have "of_int p / T' \<le> 1" using p(2) T'(2) by (simp add: T'_def)
  then have "of_int p / T' * N' \<le> 1 * N'" using N' by (rule mult_right_mono)
  then have sN: "s \<le> N'" by (simp add: s)
  have "s * c \<le> N' * c" using sN c by (rule mult_right_mono)
  with E(3) have err: "\<bar>E - s\<bar> \<le> \<eta>" by (simp add: \<eta>_def)
  have "T' * N' = of_int (T * N)" by (simp add: T'_def N'_def)
  also have "\<dots> \<le> of_int (2 ^ 50)" using N(2) by (simp only: of_int_le_iff)
  finally have "T' * N' \<le> 2 ^ 50" by simp
  then have "T' * N' * c \<le> 2 ^ 50 * c" using c by (rule mult_right_mono)
  also have "\<dots> < 1 / 2" by (simp add: c_def)
  finally have "\<eta> * T' < 1 / 2" by (simp add: \<eta>_def mult.commute mult.left_commute)
  then have \<eta>: "\<eta> < \<theta>" using T'(2) by (simp add: \<theta>_def field_simps)
  have \<theta>2: "\<theta> + \<theta> = 1 / T'" by (simp add: \<theta>_def)
  have y: "0 \<le> y" "y < 1" unfolding y_def by linarith+
  have ty: "t = y - (E - s)" by (simp add: t_def y_def)
  have tm: "t = of_int m / T'"
    using T'(2) by (simp add: t_def m_def s T'_def N'_def field_simps)
  have lo: "- (1 / T') < t"
  proof -
    have "- \<eta> \<le> t" using err y(1) by (simp add: ty abs_le_iff)
    with \<eta> \<theta>2 T'(2) have "- \<theta> < t" by simp
    moreover have "0 < \<theta>" using T'(2) by (simp add: \<theta>_def)
    ultimately show ?thesis using \<theta>2 by linarith
  qed
  have hi: "t < 1 + 1 / T'"
  proof -
    have "t \<le> y + \<eta>" using err by (simp add: ty abs_le_iff)
    moreover have "0 < \<theta>" using T'(2) by (simp add: \<theta>_def)
    ultimately show ?thesis using y(2) \<eta> \<theta>2 by linarith
  qed
  have unit: "1 / T' * T' = 1" using T'(2) by simp
  have "- (1 / T') * T' < (of_int m :: rat)" using lo T'(2) by (simp only: tm pos_less_divide_eq)
  then have "- 1 < (of_int m :: rat)" using unit by simp
  then have "(of_int (- 1) :: rat) < of_int m" by simp
  then have "- 1 < m" by (simp only: of_int_less_iff)
  then have m0: "0 \<le> m" by simp
  have "(of_int m :: rat) < (1 + 1 / T') * T'" using hi T'(2) by (simp only: tm pos_divide_less_eq)
  then have "(of_int m :: rat) < T' + 1" using unit by (simp add: distrib_right)
  then have "(of_int m :: rat) < of_int (T + 1)" by (simp add: T'_def)
  then have "m < T + 1" by (simp only: of_int_less_iff)
  then have mT: "m \<le> T" by simp
  have t0: "0 \<le> t" using m0 T'(2) by (simp add: tm)
  have t1: "t \<le> 1" using mT T'(2) by (simp add: tm T'_def)
  have one: "t = 1 \<longleftrightarrow> 1 - \<theta> < y"
  proof
    assume "t = 1"
    then have "y = 1 + (E - s)" by (simp add: ty)
    moreover have "- \<eta> \<le> E - s" using err by (simp add: abs_le_iff)
    ultimately show "1 - \<theta> < y" using \<eta> by linarith
  next
    assume "1 - \<theta> < y"
    moreover have "E - s \<le> \<eta>" using err by (simp add: abs_le_iff)
    ultimately have "1 - 1 / T' < t" using \<eta> \<theta>2 unfolding ty by linarith
    then have "(1 - 1 / T') * T' < (of_int m :: rat)" using T'(2) by (simp only: tm pos_less_divide_eq)
    then have "T' - 1 < (of_int m :: rat)" using unit by (simp add: left_diff_distrib)
    then have "(of_int (T - 1) :: rat) < of_int m" by (simp add: T'_def)
    then have "T - 1 < m" by (simp only: of_int_less_iff)
    with mT have "m = T" by simp
    then show "t = 1" using T'(2) by (simp add: tm T'_def)
  qed
  have zero: "t = 0 \<longleftrightarrow> y \<le> \<theta>"
  proof
    assume "t = 0"
    then have "y = E - s" by (simp add: ty)
    moreover have "E - s \<le> \<eta>" using err by (simp add: abs_le_iff)
    ultimately show "y \<le> \<theta>" using \<eta> by linarith
  next
    assume "y \<le> \<theta>"
    moreover have "- \<eta> \<le> E - s" using err by (simp add: abs_le_iff)
    ultimately have "t < 1 / T'" using \<eta> \<theta>2 unfolding ty by linarith
    then have "(of_int m :: rat) < 1 / T' * T'" using T'(2) by (simp only: tm pos_divide_less_eq)
    then have "(of_int m :: rat) < 1" using unit by simp
    then have "(of_int m :: rat) < of_int 1" by simp
    then have "m < 1" by (simp only: of_int_less_iff)
    with m0 have "m = 0" by simp
    then show "t = 0" by (simp add: tm)
  qed
  from E(1) t0 t1 one zero show ?thesis
    unfolding t_def y_def s_def \<theta>_def T'_def by (intro exI [of _ E] conjI)
qed

lemma leftover_as_sum:
  assumes "0 < sum_list (map snd regions)"
  shows "(of_int (N - sum_list (map (\<lambda>rp. \<lfloor>e rp\<rfloor>) regions)) :: rat)
           = sum_list (map (\<lambda>rp. exact_share (snd rp) (sum_list (map snd regions)) N
                 - of_int \<lfloor>e rp :: rat\<rfloor>) regions)"
proof -
  let ?T = "sum_list (map snd regions)"
  have "sum_list (map (\<lambda>rp. exact_share (snd rp) ?T N) regions) = of_int ?T / of_int ?T * of_int N"
    by (rule sum_list_shares)
  then have "sum_list (map (\<lambda>rp. exact_share (snd rp) ?T N) regions) = of_int N"
    using assms by simp
  then show ?thesis by (simp add: sum_list_subtractf of_int_sum_list_map)
qed


lemma single_region:
  assumes "w \<noteq> 0" "\<bar>n\<bar> < 2 ^ 53"
  shows "fst (allocate_hospitals_proportional R [(region, w)] n seed g) = Inr [(region, n)]"
proof -
  have one: "round_binary64 1 = 1" using round_binary64_of_int [of 1] by simp
  have "finite64 1" by (rule finite64_small) simp
  with one assms(1) have div: "int_true_div w w = Inr 1" by (simp add: int_true_div_def)
  have conv: "float_of_int n = Inr (of_int n)" using assms(2) by (rule float_of_int_small)
  have fl: "round_binary64 (of_int n) = of_int n" using assms(2) by (rule round_binary64_of_int)
  have exact: "exact_allocation w w n = Inr (of_int n)"
    by (simp add: exact_allocation_def div conv fl)
  from assms(2) have "(of_int \<bar>n\<bar> :: rat) \<le> of_int (2 ^ 53)" by (simp only: of_int_le_iff)
  then have "\<bar>of_int n :: rat\<bar> \<le> 2 ^ 53" by simp
  then have "finite64 (of_int n)" by (rule finite64_small)
  then have share: "region_share w w n = Inr (n, 0)"
    by (simp add: region_share_def exact)
  then have "initial_allocation [(region, w)] w n [] [] = Inr ([(region, n)], [(region, 0)])"
    by simp
  then show ?thesis by (simp add: allocate_hospitals_proportional_def)
qed

section \<open>The claims\<close>

subsection \<open>C1\<close>

text \<open>
  Claim C1, as found in the code. The arithmetic is floating-point, and the sum is the
  total only while the rounding errors are small: for weights that are not negative, with
  a positive sum of at most \<open>2 ^ 1000\<close>, and a total from \<open>0\<close> to below \<open>2 ^ 52\<close>, the call
  returns an allocation with one count for every region, and the counts sum to the total.
\<close>

theorem allocation_sums_to_total:
  assumes "distinct (map fst regions)"
    and "\<forall>rp \<in> set regions. 0 \<le> snd rp"
    and "0 < sum_list (map snd regions)" and "sum_list (map snd regions) \<le> 2 ^ 1000"
    and "0 \<le> total_hospitals" and "total_hospitals < 2 ^ 52"
  shows "\<exists>allocation.
      fst (allocate_hospitals_proportional R regions total_hospitals seed g) = Inr allocation
      \<and> map fst allocation = map fst regions
      \<and> sum_list (map snd allocation) = total_hospitals"
proof -
  let ?T = "sum_list (map snd regions)"
  define E where "E = (\<lambda>p. projr (exact_allocation p ?T total_hospitals))"
  define base where "base = map (\<lambda>rp. (fst rp, \<lfloor>E (snd rp)\<rfloor>)) regions"
  define remainders
    where "remainders = map (\<lambda>rp. (fst rp, E (snd rp) - of_int \<lfloor>E (snd rp)\<rfloor>)) regions"
  let ?remaining = "total_hospitals - sum_list (map snd base)"
  note bounds = apportion_bounds [OF assms(2-6) assms(1)]
  have init: "initial_allocation regions ?T total_hospitals [] [] = Inr (base, remainders)"
    unfolding base_def remainders_def E_def by (rule bounds(1))
  have lo: "0 \<le> ?remaining"
    unfolding base_def remainders_def E_def by (rule bounds(3))
  have "nat ?remaining \<le> length (filter (\<lambda>x. 0 < snd x) remainders)"
    unfolding base_def remainders_def E_def by (rule bounds(4))
  also have "\<dots> \<le> length remainders" by (rule length_filter_le)
  also have "\<dots> = length regions" by (simp add: remainders_def)
  finally have hi: "?remaining \<le> int (length regions)" using lo by simp
  from award_order [OF assms(1) init, of R seed g] obtain allocation where
    a: "fst (allocate_hospitals_proportional R regions total_hospitals seed g) = Inr allocation"
      "map fst allocation = map fst regions"
      "sum_list (map snd allocation) = sum_list (map snd base)
         + max 0 (min ?remaining (int (length regions)))"
    by blast
  from a(3) lo hi have "sum_list (map snd allocation) = total_hospitals" by simp
  with a(1,2) show ?thesis by blast
qed

theorem allocation_sums_to_total_witness:
  "distinct (map fst [(''A'', 1 :: int), (''B'', 1), (''C'', 1)])
   \<and> 0 < sum_list (map snd [(''A'', 1 :: int), (''B'', 1), (''C'', 1)])
   \<and> (\<exists>allocation.
        fst (allocate_hospitals_proportional lcg [(''A'', 1), (''B'', 1), (''C'', 1)] 2 None 0)
          = Inr allocation
        \<and> map fst allocation = [''A'', ''B'', ''C'']
        \<and> sum_list (map snd allocation) = 2)"
proof -
  let ?regions = "[(''A'', 1 :: int), (''B'', 1), (''C'', 1)]"
  have h1: "distinct (map fst ?regions)" by simp
  have h2: "\<forall>rp \<in> set ?regions. 0 \<le> snd rp" by simp
  have h3: "0 < sum_list (map snd ?regions)" by simp
  have h4: "sum_list (map snd ?regions) \<le> 2 ^ 1000" by simp
  have h5: "(0::int) \<le> 2" by simp
  have h6: "(2::int) < 2 ^ 52" by simp
  from allocation_sums_to_total [OF h1 h2 h3 h4 h5 h6, of lcg None 0]
  have "\<exists>allocation. fst (allocate_hospitals_proportional lcg ?regions 2 None 0) = Inr allocation
      \<and> map fst allocation = [''A'', ''B'', ''C''] \<and> sum_list (map snd allocation) = 2"
    by simp
  with h1 h3 show ?thesis by (intro conjI)
qed

text \<open>
  The claim as stated fails for a large total. With the single weight \<open>1\<close> and the total
  \<open>2 ^ 53 + 3\<close> the product \<open>1.0 * total\<close> is rounded up to \<open>2 ^ 53 + 4\<close>; \<open>remaining\<close> is
  \<open>-1\<close>, nothing is taken back, and the allocation sums to one more than the total.
\<close>

theorem allocation_overshoots_large_total:
  "fst (allocate_hospitals_proportional lcg [(''A'', 1)] 9007199254740995 None 0)
     = Inr [(''A'', 9007199254740996)]
   \<and> sum_list (map snd [(''A'', 9007199254740996 :: int)]) \<noteq> 9007199254740995"
  by code_simp

subsection \<open>C2\<close>

text \<open>
  Claim C2, as found in the code. For weights that are not negative, with a positive sum
  of at most \<open>2 ^ 1000\<close>, and a total from \<open>0\<close> to below \<open>2 ^ 52\<close>, every region's count lies
  between the floor and the ceiling of the float \<open>exact_allocation\<close> the code computes for
  it. When moreover \<open>total_weight * total \<le> 2 ^ 50\<close>, the count also lies between the floor
  and the ceiling of the exact rational share \<open>weight / total_weight * total\<close>.
\<close>

theorem allocation_within_floor_and_ceiling:
  assumes "distinct (map fst regions)"
    and "\<forall>rp \<in> set regions. 0 \<le> snd rp"
    and "0 < sum_list (map snd regions)" and "sum_list (map snd regions) \<le> 2 ^ 1000"
    and "0 \<le> total_hospitals" and "total_hospitals < 2 ^ 52"
  shows "\<exists>allocation.
      fst (allocate_hospitals_proportional R regions total_hospitals seed g) = Inr allocation
      \<and> map fst allocation = map fst regions
      \<and> (\<forall>i < length regions. \<exists>exact.
            exact_allocation (snd (regions ! i)) (sum_list (map snd regions)) total_hospitals
              = Inr exact
            \<and> \<lfloor>exact\<rfloor> \<le> snd (allocation ! i) \<and> snd (allocation ! i) \<le> \<lceil>exact\<rceil>)
      \<and> (sum_list (map snd regions) * total_hospitals \<le> 2 ^ 50 \<longrightarrow>
           (\<forall>i < length regions.
              \<lfloor>exact_share (snd (regions ! i)) (sum_list (map snd regions)) total_hospitals\<rfloor>
                \<le> snd (allocation ! i)
              \<and> snd (allocation ! i)
                \<le> \<lceil>exact_share (snd (regions ! i)) (sum_list (map snd regions)) total_hospitals\<rceil>))"
proof -
  let ?T = "sum_list (map snd regions)"
  define E where "E = (\<lambda>p. projr (exact_allocation p ?T total_hospitals))"
  define base where "base = map (\<lambda>rp. (fst rp, \<lfloor>E (snd rp)\<rfloor>)) regions"
  define remainders
    where "remainders = map (\<lambda>rp. (fst rp, E (snd rp) - of_int \<lfloor>E (snd rp)\<rfloor>)) regions"
  let ?k = "nat (total_hospitals - sum_list (map snd base))"
  let ?S = "sorted_reverse remainders"
  let ?K = "set (map fst (take ?k ?S))"
  let ?alloc = "map (awarded ?K) base"
  let ?pos = "\<lambda>x :: 'a \<times> rat. 0 < snd x"
  note bounds = apportion_bounds [OF assms(2-6) assms(1)]
  have init: "initial_allocation regions ?T total_hospitals [] [] = Inr (base, remainders)"
    unfolding base_def remainders_def E_def by (rule bounds(1))
  have exacts: "\<forall>rp \<in> set regions. exact_allocation (snd rp) ?T total_hospitals = Inr (E (snd rp))"
    unfolding E_def by (rule bounds(2))
  have "?k \<le> length (filter ?pos remainders)"
    unfolding base_def remainders_def E_def by (rule bounds(4))
  then have k: "?k \<le> length (filter ?pos ?S)" by (simp only: filter_sorted_reverse)
  note closed = allocate_closed [OF assms(1) init]
  have dist_rem: "distinct (map fst remainders)" using assms(1) by (simp only: closed(2))
  have region: "\<exists>exact. exact_allocation (snd (regions ! i)) ?T total_hospitals = Inr exact
      \<and> \<lfloor>exact\<rfloor> \<le> snd (?alloc ! i) \<and> snd (?alloc ! i) \<le> \<lceil>exact\<rceil>"
    if i: "i < length regions" for i
  proof -
    let ?e = "E (snd (regions ! i))"
    from i have mem: "regions ! i \<in> set regions" by simp
    with exacts have exact: "exact_allocation (snd (regions ! i)) ?T total_hospitals = Inr ?e"
      by blast
    have b: "base ! i = (fst (regions ! i), \<lfloor>?e\<rfloor>)" using i by (simp add: base_def)
    have r: "remainders ! i = (fst (regions ! i), ?e - of_int \<lfloor>?e\<rfloor>)"
      using i by (simp add: remainders_def)
    have i': "i < length remainders" using i by (simp add: remainders_def)
    have a: "?alloc ! i = awarded ?K (base ! i)" using i by (simp add: base_def)
    show ?thesis
    proof (cases "fst (regions ! i) \<in> ?K")
      case False
      with a b have "snd (?alloc ! i) = \<lfloor>?e\<rfloor>" by (simp add: awarded_def)
      moreover have "\<lfloor>?e\<rfloor> \<le> \<lceil>?e\<rceil>" by (rule floor_le_ceiling)
      ultimately show ?thesis using exact by simp
    next
      case True
      with a b have up: "snd (?alloc ! i) = \<lfloor>?e\<rfloor> + 1" by (simp add: awarded_def)
      from True r have "fst (remainders ! i) \<in> ?K" by simp
      with key_in_prefix [OF dist_rem i', of ?k] have "remainders ! i \<in> set (take ?k ?S)" by blast
      with k have "?pos (remainders ! i)"
      proof (rule sorted_prefix_only [rotated 2])
        show "sorted (map (\<lambda>x. - snd x) ?S)" by (rule sorted_sorted_reverse)
        show "\<forall>x \<in> set ?S. \<forall>y \<in> set ?S. ?pos x \<and> \<not> ?pos y \<longrightarrow> - snd x < - snd y" by auto
      qed
      with r have "of_int \<lfloor>?e\<rfloor> < ?e" by simp
      then have "\<lfloor>?e\<rfloor> < \<lceil>?e\<rceil>" by (simp add: less_ceiling_iff)
      with up exact show ?thesis by simp
    qed
  qed
  have share: "\<lfloor>exact_share (snd (regions ! i)) ?T total_hospitals\<rfloor> \<le> snd (?alloc ! i)
      \<and> snd (?alloc ! i) \<le> \<lceil>exact_share (snd (regions ! i)) ?T total_hospitals\<rceil>"
    if small: "?T * total_hospitals \<le> 2 ^ 50" and i: "i < length regions" for i
  proof -
    define \<theta> :: rat where "\<theta> = 1 / (2 * of_int ?T)"
    let ?s = "\<lambda>rp. exact_share (snd rp) ?T total_hospitals"
    let ?y = "\<lambda>rp :: 'a \<times> int. E (snd rp) - of_int \<lfloor>E (snd rp)\<rfloor>"
    let ?t = "\<lambda>rp :: 'a \<times> int. ?s rp - of_int \<lfloor>E (snd rp)\<rfloor>"
    let ?hi = "\<lambda>x :: 'a \<times> rat. 1 - \<theta> < snd x"
    let ?nonlo = "\<lambda>x :: 'a \<times> rat. \<theta> < snd x"
    have cls: "0 \<le> ?t rp \<and> ?t rp \<le> 1 \<and> (?t rp = 1 \<longleftrightarrow> 1 - \<theta> < ?y rp)
        \<and> (?t rp = 0 \<longleftrightarrow> ?y rp \<le> \<theta>)"
      if "rp \<in> set regions" for rp
    proof -
      from that assms(2) have p: "0 \<le> snd rp" by simp
      from that have "snd rp \<in> set (map snd regions)" by simp
      with assms(2) have "snd rp \<le> ?T" by (intro int_member_le_sum_list) simp_all
      from share_classes [OF p this assms(3,4,5) small] obtain E' where
        E': "exact_allocation (snd rp) ?T total_hospitals = Inr E'"
          "0 \<le> ?s rp - of_int \<lfloor>E'\<rfloor>" "?s rp - of_int \<lfloor>E'\<rfloor> \<le> 1"
          "?s rp - of_int \<lfloor>E'\<rfloor> = 1 \<longleftrightarrow> 1 - 1 / (2 * of_int ?T) < E' - of_int \<lfloor>E'\<rfloor>"
          "?s rp - of_int \<lfloor>E'\<rfloor> = 0 \<longleftrightarrow> E' - of_int \<lfloor>E'\<rfloor> \<le> 1 / (2 * of_int ?T)"
        by blast
      from E'(1) have "E (snd rp) = E'" by (simp add: E_def)
      with E'(2-5) show ?thesis by (simp add: \<theta>_def)
    qed
    have "sum_list (map snd base) = sum_list (map (\<lambda>rp. \<lfloor>E (snd rp)\<rfloor>) regions)"
      by (simp add: base_def o_def)
    with leftover_as_sum [OF assms(3), of total_hospitals "\<lambda>rp. E (snd rp)"]
    have left: "(of_int (total_hospitals - sum_list (map snd base)) :: rat) = sum_list (map ?t regions)"
      by simp
    have "(of_nat (length (filter (\<lambda>rp. 1 - \<theta> < ?y rp) regions)) :: rat) \<le> sum_list (map ?t regions)"
    proof (rule sum_list_ge_count, rule ballI)
      fix rp assume "rp \<in> set regions"
      from cls [OF this] show "(if 1 - \<theta> < ?y rp then 1 else 0) \<le> ?t rp" by auto
    qed
    also have "length (filter (\<lambda>rp. 1 - \<theta> < ?y rp) regions) = length (filter ?hi remainders)"
      by (simp add: remainders_def filter_map o_def)
    finally have "(of_int (int (length (filter ?hi remainders))) :: rat)
        \<le> of_int (total_hospitals - sum_list (map snd base))"
      by (simp only: left of_int_of_nat_eq)
    then have "int (length (filter ?hi remainders)) \<le> total_hospitals - sum_list (map snd base)"
      by (simp only: of_int_le_iff)
    then have "length (filter ?hi remainders) \<le> ?k" by simp
    then have k_hi: "length (filter ?hi ?S) \<le> ?k" by (simp only: filter_sorted_reverse)
    have "sum_list (map ?t regions) \<le> of_nat (length (filter (\<lambda>rp. \<theta> < ?y rp) regions))"
    proof (rule sum_list_le_count, rule ballI)
      fix rp assume "rp \<in> set regions"
      from cls [OF this] show "?t rp \<le> (if \<theta> < ?y rp then 1 else 0)" by auto
    qed
    also have "length (filter (\<lambda>rp. \<theta> < ?y rp) regions) = length (filter ?nonlo remainders)"
      by (simp add: remainders_def filter_map o_def)
    finally have "(of_int (total_hospitals - sum_list (map snd base)) :: rat)
        \<le> of_int (int (length (filter ?nonlo remainders)))"
      by (simp only: left of_int_of_nat_eq)
    then have "total_hospitals - sum_list (map snd base) \<le> int (length (filter ?nonlo remainders))"
      by (simp only: of_int_le_iff)
    then have "?k \<le> length (filter ?nonlo remainders)" by simp
    then have k_lo: "?k \<le> length (filter ?nonlo ?S)" by (simp only: filter_sorted_reverse)
    let ?rp = "regions ! i"
    let ?e = "E (snd ?rp)"
    from i have mem: "?rp \<in> set regions" by simp
    note c = cls [OF mem]
    have b: "base ! i = (fst ?rp, \<lfloor>?e\<rfloor>)" using i by (simp add: base_def)
    have r: "remainders ! i = (fst ?rp, ?y ?rp)" using i by (simp add: remainders_def)
    have i': "i < length remainders" using i by (simp add: remainders_def)
    have a: "?alloc ! i = awarded ?K (base ! i)" using i by (simp add: base_def)
    have sorted: "sorted (map (\<lambda>x. - snd x) ?S)" by (rule sorted_sorted_reverse)
    show ?thesis
    proof (cases "fst ?rp \<in> ?K")
      case True
      with a b have up: "snd (?alloc ! i) = \<lfloor>?e\<rfloor> + 1" by (simp add: awarded_def)
      from True r have "fst (remainders ! i) \<in> ?K" by simp
      with key_in_prefix [OF dist_rem i', of ?k] have "remainders ! i \<in> set (take ?k ?S)" by blast
      with k_lo have "?nonlo (remainders ! i)"
      proof (rule sorted_prefix_only [rotated 2])
        show "sorted (map (\<lambda>x. - snd x) ?S)" by (rule sorted)
        show "\<forall>x \<in> set ?S. \<forall>y \<in> set ?S. ?nonlo x \<and> \<not> ?nonlo y \<longrightarrow> - snd x < - snd y" by auto
      qed
      with r have "\<theta> < ?y ?rp" by simp
      with c have "0 < ?t ?rp" "?t ?rp \<le> 1" by auto
      then have "of_int (\<lfloor>?e\<rfloor> + 1) - 1 < ?s ?rp" "?s ?rp \<le> of_int (\<lfloor>?e\<rfloor> + 1)" by simp_all
      then have "\<lceil>?s ?rp\<rceil> = \<lfloor>?e\<rfloor> + 1" by (rule ceiling_unique)
      moreover have "\<lfloor>?s ?rp\<rfloor> \<le> \<lceil>?s ?rp\<rceil>" by (rule floor_le_ceiling)
      ultimately show ?thesis using up by simp
    next
      case False
      with a b have same: "snd (?alloc ! i) = \<lfloor>?e\<rfloor>" by (simp add: awarded_def)
      from False r have "fst (remainders ! i) \<notin> ?K" by simp
      with key_in_prefix [OF dist_rem i', of ?k] have out: "remainders ! i \<notin> set (take ?k ?S)" by blast
      have "\<not> ?hi (remainders ! i)"
      proof
        assume "?hi (remainders ! i)"
        moreover have "remainders ! i \<in> set ?S" using i' by simp
        moreover have "\<forall>x \<in> set ?S. \<forall>y \<in> set ?S. ?hi x \<and> \<not> ?hi y \<longrightarrow> - snd x < - snd y" by auto
        ultimately have "remainders ! i \<in> set (take ?k ?S)"
          using sorted k_hi by (intro sorted_prefix_all [where P = ?hi and f = "\<lambda>x. - snd x"])
        with out show False by simp
      qed
      with r have "\<not> 1 - \<theta> < ?y ?rp" by simp
      with c have "0 \<le> ?t ?rp" "?t ?rp < 1" by auto
      then have "of_int \<lfloor>?e\<rfloor> \<le> ?s ?rp" "?s ?rp < of_int \<lfloor>?e\<rfloor> + 1" by simp_all
      then have "\<lfloor>?s ?rp\<rfloor> = \<lfloor>?e\<rfloor>" by (rule floor_unique)
      moreover have "\<lfloor>?s ?rp\<rfloor> \<le> \<lceil>?s ?rp\<rceil>" by (rule floor_le_ceiling)
      ultimately show ?thesis using same by simp
    qed
  qed
  show ?thesis
  proof (intro exI [of _ ?alloc] conjI allI impI)
    show "fst (allocate_hospitals_proportional R regions total_hospitals seed g) = Inr ?alloc"
      by (rule closed(4))
    show "map fst ?alloc = map fst regions" using closed(1) by simp
    show "\<exists>exact. exact_allocation (snd (regions ! i)) ?T total_hospitals = Inr exact
      \<and> \<lfloor>exact\<rfloor> \<le> snd (?alloc ! i) \<and> snd (?alloc ! i) \<le> \<lceil>exact\<rceil>"
      if "i < length regions" for i using that by (rule region)
    show "\<lfloor>exact_share (snd (regions ! i)) ?T total_hospitals\<rfloor> \<le> snd (?alloc ! i)"
      if "?T * total_hospitals \<le> 2 ^ 50" "i < length regions" for i
      using share [OF that] by simp
    show "snd (?alloc ! i) \<le> \<lceil>exact_share (snd (regions ! i)) ?T total_hospitals\<rceil>"
      if "?T * total_hospitals \<le> 2 ^ 50" "i < length regions" for i
      using share [OF that] by simp
  qed
qed

theorem allocation_within_floor_and_ceiling_witness:
  "distinct (map fst [(''A'', 1 :: int), (''B'', 1), (''C'', 1)])
   \<and> 0 < sum_list (map snd [(''A'', 1 :: int), (''B'', 1), (''C'', 1)])
   \<and> sum_list (map snd [(''A'', 1 :: int), (''B'', 1), (''C'', 1)]) * 2 \<le> 2 ^ 50
   \<and> (\<exists>allocation.
        fst (allocate_hospitals_proportional lcg [(''A'', 1), (''B'', 1), (''C'', 1)] 2 None 0)
          = Inr allocation
        \<and> \<lfloor>exact_share 1 3 2\<rfloor> \<le> snd (allocation ! 2)
        \<and> snd (allocation ! 2) \<le> \<lceil>exact_share 1 3 2\<rceil>)"
proof -
  let ?regions = "[(''A'', 1 :: int), (''B'', 1), (''C'', 1)]"
  have h1: "distinct (map fst ?regions)" by simp
  have h2: "\<forall>rp \<in> set ?regions. 0 \<le> snd rp" by simp
  have h3: "0 < sum_list (map snd ?regions)" by simp
  have h4: "sum_list (map snd ?regions) \<le> 2 ^ 1000" by simp
  have h5: "(0::int) \<le> 2" by simp
  have h6: "(2::int) < 2 ^ 52" by simp
  have h7: "sum_list (map snd ?regions) * 2 \<le> 2 ^ 50" by simp
  have T: "sum_list (map snd ?regions) = 3" by simp
  have i: "(2::nat) < length ?regions" "snd (?regions ! 2) = 1" by simp_all
  from allocation_within_floor_and_ceiling [OF h1 h2 h3 h4 h5 h6, of lcg None 0]
  obtain allocation where
    a: "fst (allocate_hospitals_proportional lcg ?regions 2 None 0) = Inr allocation"
    and b: "sum_list (map snd ?regions) * 2 \<le> 2 ^ 50 \<longrightarrow>
           (\<forall>i < length ?regions.
              \<lfloor>exact_share (snd (?regions ! i)) (sum_list (map snd ?regions)) 2\<rfloor>
                \<le> snd (allocation ! i)
              \<and> snd (allocation ! i)
                \<le> \<lceil>exact_share (snd (?regions ! i)) (sum_list (map snd ?regions)) 2\<rceil>)"
    by (elim exE conjE)
  from b h7 have "\<forall>i < length ?regions.
              \<lfloor>exact_share (snd (?regions ! i)) (sum_list (map snd ?regions)) 2\<rfloor>
                \<le> snd (allocation ! i)
              \<and> snd (allocation ! i)
                \<le> \<lceil>exact_share (snd (?regions ! i)) (sum_list (map snd ?regions)) 2\<rceil>"
    by (rule mp)
  then have "2 < length ?regions \<longrightarrow>
              \<lfloor>exact_share (snd (?regions ! 2)) (sum_list (map snd ?regions)) 2\<rfloor>
                \<le> snd (allocation ! 2)
              \<and> snd (allocation ! 2)
                \<le> \<lceil>exact_share (snd (?regions ! 2)) (sum_list (map snd ?regions)) 2\<rceil>"
    by (rule spec)
  then have "\<lfloor>exact_share (snd (?regions ! 2)) (sum_list (map snd ?regions)) 2\<rfloor>
                \<le> snd (allocation ! 2)
              \<and> snd (allocation ! 2)
                \<le> \<lceil>exact_share (snd (?regions ! 2)) (sum_list (map snd ?regions)) 2\<rceil>"
    using i(1) by (rule mp)
  then have "\<lfloor>exact_share 1 3 2\<rfloor> \<le> snd (allocation ! 2)
      \<and> snd (allocation ! 2) \<le> \<lceil>exact_share 1 3 2\<rceil>"
    unfolding T i(2) .
  with a have "\<exists>allocation.
        fst (allocate_hospitals_proportional lcg ?regions 2 None 0) = Inr allocation
        \<and> \<lfloor>exact_share 1 3 2\<rfloor> \<le> snd (allocation ! 2)
        \<and> snd (allocation ! 2) \<le> \<lceil>exact_share 1 3 2\<rceil>"
    by (intro exI [of _ allocation] conjI) simp_all
  with h1 h3 h7 show ?thesis by (intro conjI)
qed

text \<open>
  The claim as stated fails for a large total. With the single weight \<open>1\<close> and the total
  \<open>2 ^ 54 + 2\<close> the float share is \<open>2 ^ 54\<close>, \<open>remaining\<close> is \<open>2\<close>, and the only region gets
  one unit more: \<open>2 ^ 54 + 1\<close>, above the ceiling of the float share and below the floor of
  the exact share.
\<close>

theorem allocation_outside_floor_and_ceiling:
  "fst (allocate_hospitals_proportional lcg [(''A'', 1)] 18014398509481986 None 0)
     = Inr [(''A'', 18014398509481985)]
   \<and> exact_allocation 1 1 18014398509481986 = Inr 18014398509481984
   \<and> \<lceil>18014398509481984 :: rat\<rceil> < 18014398509481985
   \<and> 18014398509481985 < \<lfloor>exact_share 1 1 18014398509481986\<rfloor>"
  by code_simp

subsection \<open>C3\<close>

text \<open>
  Claim C3, as found in the code. The function has no check of its input and no
  \<open>InvalidInputError\<close>. It fails with Python's \<open>ZeroDivisionError\<close>, raised by the first
  division and so before any allocation exists, exactly when there is at least one region
  and the weights sum to zero. A negative sum of weights or a negative total is not
  rejected: a single region of any weight but zero is allocated the whole total, whatever
  its sign (up to \<open>2 ^ 53\<close> in magnitude).
\<close>

theorem allocate_fails_on_zero_total_weight:
  "(fst (allocate_hospitals_proportional R regions total_hospitals seed g) = Inl ZeroDivisionError
      \<longleftrightarrow> regions \<noteq> [] \<and> sum_list (map snd regions) = 0)
   \<and> (w \<noteq> 0 \<and> \<bar>n\<bar> < 2 ^ 53
        \<longrightarrow> fst (allocate_hospitals_proportional R [(region, w)] n seed g) = Inr [(region, n)])"
proof (intro conjI impI)
  show "fst (allocate_hospitals_proportional R regions total_hospitals seed g) = Inl ZeroDivisionError
      \<longleftrightarrow> regions \<noteq> [] \<and> sum_list (map snd regions) = 0"
  proof
    assume failed: "fst (allocate_hospitals_proportional R regions total_hospitals seed g)
        = Inl ZeroDivisionError"
    let ?T = "sum_list (map snd regions)"
    show "regions \<noteq> [] \<and> ?T = 0"
    proof (cases "initial_allocation regions ?T total_hospitals [] []")
      case (Inl e)
      with failed have "e = ZeroDivisionError"
        by (simp add: allocate_hospitals_proportional_def Let_def)
      with Inl initial_allocation_error [of regions ?T total_hospitals "[]" "[]" e]
      show ?thesis by auto
    next
      case (Inr pair)
      obtain allocation fractional_allocation where pair: "pair = (allocation, fractional_allocation)"
        by (cases pair)
      let ?remaining = "total_hospitals - sum_list (map snd allocation)"
      from failed Inr pair have "0 < ?remaining"
        and "award allocation (sorted_reverse fractional_allocation) ?remaining = Inl ZeroDivisionError"
        by (auto simp: allocate_hospitals_proportional_def Let_def split: if_splits)
      from award_error [OF this(2)] show ?thesis by simp
    qed
  next
    assume "regions \<noteq> [] \<and> sum_list (map snd regions) = 0"
    then show "fst (allocate_hospitals_proportional R regions total_hospitals seed g)
        = Inl ZeroDivisionError"
      by (simp add: allocate_hospitals_proportional_def Let_def initial_allocation_zero)
  qed
next
  assume "w \<noteq> 0 \<and> \<bar>n\<bar> < 2 ^ 53"
  then have "w \<noteq> 0" "\<bar>n\<bar> < 2 ^ 53" by simp_all
  then show "fst (allocate_hospitals_proportional R [(region, w)] n seed g) = Inr [(region, n)]"
    by (rule single_region)
qed

theorem allocate_fails_on_zero_total_weight_witness:
  "fst (allocate_hospitals_proportional lcg [(''A'', - 1), (''B'', 1 :: int)] 5 None 0)
     = Inl ZeroDivisionError
   \<and> fst (allocate_hospitals_proportional lcg [(''A'', - 3)] (- 7) None 0) = Inr [(''A'', - 7)]"
proof -
  note inst = allocate_fails_on_zero_total_weight
    [of lcg "[(''A'', - 1), (''B'', 1)]" 5 None 0 "- 3" "- 7" "''A''"]
  have h1: "[(''A'', - 1), (''B'', 1 :: int)] \<noteq> [] \<and> sum_list (map snd [(''A'', - 1), (''B'', 1 :: int)]) = 0"
    by simp
  have h2: "(- 3 :: int) \<noteq> 0 \<and> \<bar>- 7 :: int\<bar> < 2 ^ 53" by simp
  from inst h1 have a: "fst (allocate_hospitals_proportional lcg [(''A'', - 1), (''B'', 1 :: int)] 5 None 0)
     = Inl ZeroDivisionError" by blast
  from inst h2 have b: "fst (allocate_hospitals_proportional lcg [(''A'', - 3)] (- 7) None 0) = Inr [(''A'', - 7)]"
    by blast
  from a b show ?thesis by (rule conjI)
qed

text \<open>
  The claim as stated fails: a negative total, and a negative sum of weights, each give
  an allocation and no error.
\<close>

theorem allocate_accepts_negative_total:
  "fst (allocate_hospitals_proportional lcg [(''A'', 1)] (- 1) None 0) = Inr [(''A'', - 1)]
   \<and> fst (allocate_hospitals_proportional lcg [(''A'', - 1)] 1 None 0) = Inr [(''A'', 1)]"
  by code_simp

subsection \<open>C4\<close>



subsection \<open>C5\<close>

text \<open>
  Claim C5: the allocation returned depends on the weights and the total only; the seed
  and the state of the generator (and the generator itself) have no influence on it.
\<close>

theorem allocate_independent_of_seed:
  "fst (allocate_hospitals_proportional R regions total_hospitals seed g)
     = fst (allocate_hospitals_proportional R' regions total_hospitals seed' g')"
  by (simp add: allocate_hospitals_proportional_def Let_def)

theorem allocate_independent_of_seed_witness:
  "fst (allocate_hospitals_proportional lcg [(''A'', 3), (''B'', 1)] 4 (Some 1) 0)
     = fst (allocate_hospitals_proportional lcg [(''A'', 3), (''B'', 1)] 4 (Some 2) 99)"
  by (rule allocate_independent_of_seed)

subsection \<open>C6\<close>

text \<open>
  Claim C6, as found in the code. The function never compares the number of identifiers
  with the allocation and has no \<open>SizeMismatchError\<close>: for distinct identifiers and
  counts that are not negative it returns a mapping with as many entries as the smaller
  of the number of identifiers and the sum of the counts.
\<close>

theorem assign_returns_partial_mapping:
  assumes "randbelow_ok R" and "distinct hospitals"
    and "\<forall>c \<in> set (map snd allocation). 0 \<le> c"
  shows "\<exists>mapping. fst (assign_hospitals_to_regions R hospitals allocation seed g) = Inr mapping
           \<and> length mapping = min (length hospitals) (nat (sum_list (map snd allocation)))"
proof -
  let ?hs = "fst (snd (assign_hospitals_to_regions R hospitals allocation seed g))"
  have "fst (assign_hospitals_to_regions R hospitals allocation seed g)
      = Inr (zip ?hs (block_labels allocation))"
    using assms by (rule assign_distinct)
  moreover have "length ?hs = length hospitals" by (simp add: assign_list length_shuffle)
  ultimately show ?thesis using assms(3) by (simp add: length_block_labels)
qed

theorem assign_returns_partial_mapping_witness:
  "randbelow_ok lcg \<and> distinct [''h1'', ''h2'', ''h3'', ''h4'', ''h5'']
   \<and> (\<exists>mapping. fst (assign_hospitals_to_regions lcg [''h1'', ''h2'', ''h3'', ''h4'', ''h5'']
           [(''A'', 3), (''B'', 1)] (Some 42) 0) = Inr mapping \<and> length mapping = 4)"
proof -
  have h1: "randbelow_ok lcg" by (rule randbelow_ok_lcg)
  have h2: "distinct [''h1'', ''h2'', ''h3'', ''h4'', ''h5'']" by simp
  have h3: "\<forall>c \<in> set (map snd [(''A'', 3 :: int), (''B'', 1)]). 0 \<le> c" by simp
  have size: "min (length [''h1'', ''h2'', ''h3'', ''h4'', ''h5''])
      (nat (sum_list (map snd [(''A'', 3 :: int), (''B'', 1)]))) = 4" by simp
  from assign_returns_partial_mapping [OF h1 h2 h3, of "Some 42" 0]
  obtain mapping where
    "fst (assign_hospitals_to_regions lcg [''h1'', ''h2'', ''h3'', ''h4'', ''h5'']
           [(''A'', 3), (''B'', 1)] (Some 42) 0) = Inr mapping"
    "length mapping = 4"
    unfolding size by (elim exE conjE)
  with h1 h2 show ?thesis by (intro conjI exI [of _ mapping])
qed

text \<open>
  The claim as stated fails on the spec's own example, five identifiers and an allocation
  summing to four: a mapping of four identifiers is returned.
\<close>

theorem assign_ignores_size_mismatch:
  "fst (assign_hospitals_to_regions lcg [''h1'', ''h2'', ''h3'', ''h4'', ''h5'']
          [(''A'', 3), (''B'', 1)] (Some 42) 0)
     = Inr [(''h2'', ''A''), (''h4'', ''A''), (''h5'', ''A''), (''h1'', ''B'')]"
  by code_simp

subsection \<open>C7\<close>

text \<open>
  Claim C7: for distinct identifiers and an allocation (counts not negative) whose counts
  sum to the number of identifiers, the mapping has every identifier as a key exactly
  once, and the multiset of its values is that of the allocation's blocks: each region of
  the allocation occurs as often as its count says, and no other label occurs.
\<close>

theorem assign_bijective_on_matching_sizes:
  assumes "randbelow_ok R" and "distinct hospitals"
    and "\<forall>c \<in> set (map snd allocation). 0 \<le> c"
    and "sum_list (map snd allocation) = int (length hospitals)"
  shows "\<exists>mapping. fst (assign_hospitals_to_regions R hospitals allocation seed g) = Inr mapping
           \<and> distinct (map fst mapping)
           \<and> mset (map fst mapping) = mset hospitals
           \<and> mset (map snd mapping) = mset (block_labels allocation)
           \<and> (distinct (map fst allocation) \<longrightarrow>
                (\<forall>(region, cnt) \<in> set allocation. count (mset (map snd mapping)) region = nat cnt)
                \<and> (\<forall>region. region \<notin> set (map fst allocation)
                      \<longrightarrow> count (mset (map snd mapping)) region = 0))"
proof -
  let ?hs = "fst (snd (assign_hospitals_to_regions R hospitals allocation seed g))"
  let ?labels = "block_labels allocation"
  let ?m = "zip ?hs ?labels"
  have res: "fst (assign_hospitals_to_regions R hospitals allocation seed g) = Inr ?m"
    using assms(1-3) by (rule assign_distinct)
  have perm: "mset ?hs = mset hospitals" using assms(1) by (simp add: assign_list shuffle_mset)
  from mset_eq_imp_distinct_iff [OF perm] assms(2) have dist: "distinct ?hs" by simp
  have "length ?hs = length hospitals" by (simp add: assign_list length_shuffle)
  moreover have "length ?labels = length hospitals"
    using assms(3,4) by (simp add: length_block_labels)
  ultimately have len: "length ?hs = length ?labels" by simp
  then have keys: "map fst ?m = ?hs" and vals: "map snd ?m = ?labels" by simp_all
  have counts: "count (mset ?labels) region = nat cnt"
    if "distinct (map fst allocation)" "(region, cnt) \<in> set allocation" for region cnt
    using that by (rule count_block_labels)
  have absent: "count (mset ?labels) region = 0" if "region \<notin> set (map fst allocation)" for region
    using that set_block_labels [of allocation] by (auto simp: count_eq_zero_iff)
  show ?thesis
  proof (intro exI conjI)
    show "fst (assign_hospitals_to_regions R hospitals allocation seed g) = Inr ?m" by (rule res)
    show "distinct (map fst ?m)" unfolding keys by (rule dist)
    show "mset (map fst ?m) = mset hospitals" unfolding keys by (rule perm)
    show "mset (map snd ?m) = mset ?labels" unfolding vals ..
    show "distinct (map fst allocation) \<longrightarrow>
        (\<forall>(region, cnt) \<in> set allocation. count (mset (map snd ?m)) region = nat cnt)
        \<and> (\<forall>region. region \<notin> set (map fst allocation) \<longrightarrow> count (mset (map snd ?m)) region = 0)"
      unfolding vals using counts absent by auto
  qed
qed

theorem assign_bijective_on_matching_sizes_witness:
  "randbelow_ok lcg \<and> distinct [''h1'', ''h2'', ''h3'', ''h4'']
   \<and> sum_list (map snd [(''A'', 3 :: int), (''B'', 1)]) = int (length [''h1'', ''h2'', ''h3'', ''h4''])
   \<and> (\<exists>mapping. fst (assign_hospitals_to_regions lcg [''h1'', ''h2'', ''h3'', ''h4'']
           [(''A'', 3), (''B'', 1)] (Some 7) 0) = Inr mapping
         \<and> mset (map fst mapping) = mset [''h1'', ''h2'', ''h3'', ''h4'']
         \<and> mset (map snd mapping) = mset [''A'', ''A'', ''A'', ''B''])"
proof -
  have h1: "randbelow_ok lcg" by (rule randbelow_ok_lcg)
  have h2: "distinct [''h1'', ''h2'', ''h3'', ''h4'']" by simp
  have h3: "\<forall>c \<in> set (map snd [(''A'', 3 :: int), (''B'', 1)]). 0 \<le> c" by simp
  have h4: "sum_list (map snd [(''A'', 3 :: int), (''B'', 1)])
      = int (length [''h1'', ''h2'', ''h3'', ''h4''])" by simp
  have labels: "block_labels [(''A'', 3 :: int), (''B'', 1)] = [''A'', ''A'', ''A'', ''B'']"
    by code_simp
  from assign_bijective_on_matching_sizes [OF h1 h2 h3 h4, of "Some 7" 0]
  obtain mapping where
    "fst (assign_hospitals_to_regions lcg [''h1'', ''h2'', ''h3'', ''h4'']
           [(''A'', 3), (''B'', 1)] (Some 7) 0) = Inr mapping"
    "mset (map fst mapping) = mset [''h1'', ''h2'', ''h3'', ''h4'']"
    "mset (map snd mapping) = mset [''A'', ''A'', ''A'', ''B'']"
    unfolding labels by (elim exE conjE)
  with h1 h2 h4 show ?thesis by (intro conjI exI [of _ mapping])
qed

subsection \<open>C8\<close>

text \<open>
  Claim C8, as found in the code. With a seed given, the result of a call (the mapping,
  and also the shuffled list and the generator's state) is determined by the contents of
  the identifiers list when the call starts, the allocation and the seed, whatever state
  the generator was in before. So two calls that each get a copy of the same list return
  the same mapping. Two calls on the same list object do not see the same contents: the
  first call shuffles the list in place, and the second returns the mapping that belongs
  to the shuffled list.
\<close>

theorem assign_reproducible_with_seed:
  "assign_hospitals_to_regions R hospitals allocation (Some s) g1
     = assign_hospitals_to_regions R hospitals allocation (Some s) g2
   \<and> fst (assign_twice_copies R hospitals allocation (Some s) g)
       = snd (assign_twice_copies R hospitals allocation (Some s) g)
   \<and> fst (assign_twice R hospitals allocation (Some s) g)
       = fst (assign_hospitals_to_regions R hospitals allocation (Some s) g3)
   \<and> snd (assign_twice R hospitals allocation (Some s) g)
       = fst (assign_hospitals_to_regions R
                (fst (shuffle R hospitals (rng_seed R s))) allocation (Some s) g3)"
proof (intro conjI)
  show "assign_hospitals_to_regions R hospitals allocation (Some s) g1
     = assign_hospitals_to_regions R hospitals allocation (Some s) g2"
    by (simp add: assign_hospitals_to_regions_def seed_if_given_def)
  show "fst (assign_twice_copies R hospitals allocation (Some s) g)
       = snd (assign_twice_copies R hospitals allocation (Some s) g)"
    by (simp add: assign_twice_copies_def case_prod_beta
        assign_hospitals_to_regions_def seed_if_given_def)
  show "fst (assign_twice R hospitals allocation (Some s) g)
       = fst (assign_hospitals_to_regions R hospitals allocation (Some s) g3)"
    by (simp add: assign_twice_def case_prod_beta
        assign_hospitals_to_regions_def seed_if_given_def)
  show "snd (assign_twice R hospitals allocation (Some s) g)
       = fst (assign_hospitals_to_regions R
                (fst (shuffle R hospitals (rng_seed R s))) allocation (Some s) g3)"
    by (simp add: assign_twice_def case_prod_beta
        assign_hospitals_to_regions_def seed_if_given_def)
qed

theorem assign_reproducible_with_seed_witness:
  "assign_hospitals_to_regions lcg [''h1'', ''h2'', ''h3'', ''h4'', ''h5'']
       [(''A'', 3), (''B'', 2)] (Some 42) 0
     = assign_hospitals_to_regions lcg [''h1'', ''h2'', ''h3'', ''h4'', ''h5'']
       [(''A'', 3), (''B'', 2)] (Some 42) 99
   \<and> fst (assign_twice_copies lcg [''h1'', ''h2'', ''h3'', ''h4'', ''h5'']
       [(''A'', 3), (''B'', 2)] (Some 42) 0)
       = snd (assign_twice_copies lcg [''h1'', ''h2'', ''h3'', ''h4'', ''h5'']
       [(''A'', 3), (''B'', 2)] (Some 42) 0)
   \<and> fst (assign_twice lcg [''h1'', ''h2'', ''h3'', ''h4'', ''h5'']
       [(''A'', 3), (''B'', 2)] (Some 42) 0)
       = fst (assign_hospitals_to_regions lcg [''h1'', ''h2'', ''h3'', ''h4'', ''h5'']
       [(''A'', 3), (''B'', 2)] (Some 42) 99)
   \<and> snd (assign_twice lcg [''h1'', ''h2'', ''h3'', ''h4'', ''h5'']
       [(''A'', 3), (''B'', 2)] (Some 42) 0)
       = fst (assign_hospitals_to_regions lcg
                (fst (shuffle lcg [''h1'', ''h2'', ''h3'', ''h4'', ''h5''] (rng_seed lcg 42)))
                [(''A'', 3), (''B'', 2)] (Some 42) 99)"
  by (rule assign_reproducible_with_seed)

text \<open>
  The claim as stated fails: called twice with the same list, the same allocation and the
  same seed, the function returns two different mappings; \<open>h1\<close> is in region \<open>B\<close> after the
  first call and in region \<open>A\<close> after the second.
\<close>

theorem second_call_on_same_list_differs:
  "assign_twice lcg [''h1'', ''h2'', ''h3'', ''h4'', ''h5''] [(''A'', 3), (''B'', 2)] (Some 42) 0
     = (Inr [(''h2'', ''A''), (''h4'', ''A''), (''h5'', ''A''), (''h1'', ''B''), (''h3'', ''B'')],
        Inr [(''h4'', ''A''), (''h1'', ''A''), (''h3'', ''A''), (''h2'', ''B''), (''h5'', ''B'')])
   \<and> map_of [(''h2'', ''A''), (''h4'', ''A''), (''h5'', ''A''), (''h1'', ''B''), (''h3'', ''B'')] ''h1''
       = Some ''B''
   \<and> map_of [(''h4'', ''A''), (''h1'', ''A''), (''h3'', ''A''), (''h2'', ''B''), (''h5'', ''B'')] ''h1''
       = Some ''A''
   \<and> fst (assign_twice lcg [''h1'', ''h2'', ''h3'', ''h4'', ''h5''] [(''A'', 3), (''B'', 2)] (Some 42) 0)
       \<noteq> snd (assign_twice lcg [''h1'', ''h2'', ''h3'', ''h4'', ''h5''] [(''A'', 3), (''B'', 2)] (Some 42) 0)"
  by code_simp

subsection \<open>C9\<close>

text \<open>
  Claim C9, as found in the code. \<open>allocate_hospitals_proportional\<close> leaves the shared
  generator alone when no seed is given and replaces its state by the seeded one
  otherwise. \<open>assign_hospitals_to_regions\<close> rearranges the caller's list in place, into a
  list of the same length and, the generator keeping its contract, of the same elements,
  and leaves the shared generator in the state reached after the shuffle's draws from
  the (re)seeded state.
\<close>

theorem generator_and_list_are_updated:
  "snd (allocate_hospitals_proportional R regions total_hospitals None g) = g
   \<and> snd (allocate_hospitals_proportional R regions total_hospitals (Some s) g) = rng_seed R s
   \<and> snd (snd (assign_hospitals_to_regions R hospitals allocation seed g))
       = shuffle_draws R (length hospitals - 1) (seed_if_given R seed g)
   \<and> length (fst (snd (assign_hospitals_to_regions R hospitals allocation seed g)))
       = length hospitals
   \<and> (randbelow_ok R \<longrightarrow>
        mset (fst (snd (assign_hospitals_to_regions R hospitals allocation seed g)))
          = mset hospitals)"
  by (simp add: allocate_hospitals_proportional_def Let_def seed_if_given_def
      assign_state assign_list shuffle_state length_shuffle shuffle_mset)

theorem generator_and_list_are_updated_witness:
  "snd (allocate_hospitals_proportional lcg [(''A'', 1 :: int)] 1 (Some 42) 0) = 42
   \<and> mset (fst (snd (assign_hospitals_to_regions lcg [''h1'', ''h2'', ''h3'', ''h4'', ''h5'']
         [(''A'', 3 :: int), (''B'', 2)] (Some 42) 0)))
       = mset [''h1'', ''h2'', ''h3'', ''h4'', ''h5'']"
proof -
  have seed: "rng_seed lcg 42 = 42" by (simp add: lcg_def)
  from generator_and_list_are_updated [of lcg "[(''A'', 1)]" 1 0 42
      "[''h1'', ''h2'', ''h3'', ''h4'', ''h5'']" "[(''A'', 3), (''B'', 2)]" "Some 42"]
  have a: "snd (allocate_hospitals_proportional lcg [(''A'', 1 :: int)] 1 (Some 42) 0) = rng_seed lcg 42"
    and b: "randbelow_ok lcg \<longrightarrow>
        mset (fst (snd (assign_hospitals_to_regions lcg [''h1'', ''h2'', ''h3'', ''h4'', ''h5'']
          [(''A'', 3 :: int), (''B'', 2)] (Some 42) 0))) = mset [''h1'', ''h2'', ''h3'', ''h4'', ''h5'']"
    by (rule conjunct1 [OF conjunct2], rule conjunct2 [OF conjunct2 [OF conjunct2 [OF conjunct2]]])
  from b randbelow_ok_lcg have c: "mset (fst (snd (assign_hospitals_to_regions lcg [''h1'', ''h2'', ''h3'', ''h4'', ''h5'']
          [(''A'', 3 :: int), (''B'', 2)] (Some 42) 0))) = mset [''h1'', ''h2'', ''h3'', ''h4'', ''h5'']"
    by (rule mp)
  from a seed have d: "snd (allocate_hospitals_proportional lcg [(''A'', 1 :: int)] 1 (Some 42) 0) = 42"
    by (rule trans)
  from d c show ?thesis by (rule conjI)
qed

text \<open>
  The claim as stated fails: a call with a seed changes the generator's state, and the
  identifiers list is not what it was before the call.
\<close>

theorem calls_have_side_effects:
  "snd (allocate_hospitals_proportional lcg [(''A'', 1)] 1 (Some 42) 0) \<noteq> 0
   \<and> fst (snd (assign_hospitals_to_regions lcg [''h1'', ''h2'', ''h3'', ''h4'', ''h5'']
         [(''A'', 3), (''B'', 2)] (Some 42) 0))
       \<noteq> [''h1'', ''h2'', ''h3'', ''h4'', ''h5'']
   \<and> snd (snd (assign_hospitals_to_regions lcg [''h1'', ''h2'', ''h3'', ''h4'', ''h5'']
         [(''A'', 3), (''B'', 2)] (Some 42) 0)) \<noteq> 0"
  by code_simp

subsection \<open>C10\<close>

text \<open>
  Claim C10: when the counts (none negative) sum to more than the number of identifiers,
  the call returns a mapping and no error; its keys are the identifiers, all of them; no
  region gets more identifiers than its count, and fewer identifiers are mapped than the
  allocation asks for. For distinct identifiers the labels handed out are the first
  \<open>len(hospitals)\<close> labels of the allocation's blocks, so that the regions late in the
  iteration order are the ones that go short.
\<close>

theorem assign_total_on_oversized_allocation:
  assumes "randbelow_ok R"
    and "\<forall>c \<in> set (map snd allocation). 0 \<le> c"
    and "int (length hospitals) < sum_list (map snd allocation)"
  shows "\<exists>mapping. fst (assign_hospitals_to_regions R hospitals allocation seed g) = Inr mapping
           \<and> distinct (map fst mapping)
           \<and> set (map fst mapping) = set hospitals
           \<and> (\<forall>region. count (mset (map snd mapping)) region
                 \<le> count (mset (block_labels allocation)) region)
           \<and> length mapping \<le> length hospitals
           \<and> length hospitals < length (block_labels allocation)
           \<and> (distinct hospitals \<longrightarrow>
                 map snd mapping = take (length hospitals) (block_labels allocation))"
proof -
  let ?hs = "fst (snd (assign_hospitals_to_regions R hospitals allocation seed g))"
  let ?labels = "block_labels allocation"
  let ?ps = "zip ?hs ?labels"
  let ?m = "fold set_item ?ps []"
  have res: "fst (assign_hospitals_to_regions R hospitals allocation seed g) = Inr ?m"
    using assms(2) by (rule assign_general)
  have perm: "mset ?hs = mset hospitals" using assms(1) by (simp add: assign_list shuffle_mset)
  have len_hs: "length ?hs = length hospitals" by (simp add: assign_list length_shuffle)
  have len_labels: "length hospitals < length ?labels"
    using assms(2,3) by (simp add: length_block_labels)
  have fst_ps: "map fst ?ps = ?hs" using len_hs len_labels by (simp add: map_fst_zip_take)
  have snd_ps: "map snd ?ps = take (length hospitals) ?labels"
    using len_hs len_labels by (simp add: map_snd_zip_take min_def)
  have dist: "distinct (map fst ?m)" by (rule fold_set_item_distinct) simp
  then have dist_m: "distinct ?m" by (rule distinct_map [THEN iffD1, THEN conjunct1])
  have keys: "set (map fst ?m) = set hospitals"
    using fold_set_item_keys [of ?ps "[]"] mset_eq_setD [OF perm] unfolding fst_ps
    by simp
  have "set ?m \<subseteq> set ?ps" using fold_set_item_subset [of ?ps "[]"] by simp
  with dist_m have sub: "mset ?m \<subseteq># mset ?ps" by (rule distinct_subset_mset)
  then have "image_mset snd (mset ?m) \<subseteq># image_mset snd (mset ?ps)" by (rule image_mset_subseteq_mono)
  then have "mset (map snd ?m) \<subseteq># mset (map snd ?ps)" by simp
  then have "mset (map snd ?m) \<subseteq># mset (take (length hospitals) ?labels)"
    by (simp only: snd_ps)
  moreover have "mset (take (length hospitals) ?labels) \<subseteq># mset ?labels"
    by (rule mset_take_subseteq)
  ultimately have vals: "mset (map snd ?m) \<subseteq># mset ?labels"
    by (rule subset_mset.order_trans)
  have len_m: "length ?m \<le> length hospitals"
    using size_mset_mono [OF sub] len_hs by simp
  have prefix: "map snd ?m = take (length hospitals) ?labels" if "distinct hospitals"
  proof -
    from mset_eq_imp_distinct_iff [OF perm] that have "distinct ?hs" by simp
    then have "distinct (map fst [] @ map fst ?ps)" unfolding fst_ps by simp
    then have "?m = [] @ ?ps" by (rule fold_set_item_fresh)
    with snd_ps show ?thesis by simp
  qed
  show ?thesis
  proof (intro exI conjI)
    show "fst (assign_hospitals_to_regions R hospitals allocation seed g) = Inr ?m" by (rule res)
    show "distinct (map fst ?m)" by (rule dist)
    show "set (map fst ?m) = set hospitals" by (rule keys)
    show "\<forall>region. count (mset (map snd ?m)) region \<le> count (mset ?labels) region"
      using vals by (simp add: mset_subset_eq_count)
    show "length ?m \<le> length hospitals" by (rule len_m)
    show "length hospitals < length ?labels" by (rule len_labels)
    show "distinct hospitals \<longrightarrow> map snd ?m = take (length hospitals) ?labels"
      using prefix by simp
  qed
qed

theorem assign_total_on_oversized_allocation_witness:
  "randbelow_ok lcg
   \<and> int (length [''h1'', ''h2'', ''h3'']) < sum_list (map snd [(''A'', 3 :: int), (''B'', 1)])
   \<and> (\<exists>mapping. fst (assign_hospitals_to_regions lcg [''h1'', ''h2'', ''h3'']
           [(''A'', 3), (''B'', 1)] (Some 42) 0) = Inr mapping
         \<and> set (map fst mapping) = set [''h1'', ''h2'', ''h3'']
         \<and> map snd mapping = [''A'', ''A'', ''A''])"
proof -
  have h1: "randbelow_ok lcg" by (rule randbelow_ok_lcg)
  have h2: "\<forall>c \<in> set (map snd [(''A'', 3 :: int), (''B'', 1)]). 0 \<le> c" by simp
  have h3: "int (length [''h1'', ''h2'', ''h3'']) < sum_list (map snd [(''A'', 3 :: int), (''B'', 1)])"
    by simp
  have labels: "take (length [''h1'', ''h2'', ''h3'']) (block_labels [(''A'', 3 :: int), (''B'', 1)])
      = [''A'', ''A'', ''A'']"
    by code_simp
  have d: "distinct [''h1'', ''h2'', ''h3'']" by simp
  from assign_total_on_oversized_allocation [OF h1 h2 h3, of "Some 42" 0]
  obtain mapping where m: "fst (assign_hospitals_to_regions lcg [''h1'', ''h2'', ''h3'']
           [(''A'', 3), (''B'', 1)] (Some 42) 0) = Inr mapping"
    "set (map fst mapping) = set [''h1'', ''h2'', ''h3'']"
    "distinct [''h1'', ''h2'', ''h3''] \<longrightarrow> map snd mapping
       = take (length [''h1'', ''h2'', ''h3'']) (block_labels [(''A'', 3 :: int), (''B'', 1)])"
    by (elim exE conjE)
  from m(3) d have "map snd mapping
       = take (length [''h1'', ''h2'', ''h3'']) (block_labels [(''A'', 3 :: int), (''B'', 1)])"
    by (rule mp)
  then have "map snd mapping = [''A'', ''A'', ''A'']" unfolding labels .
  with m(1,2) h1 h3 show ?thesis by (intro conjI exI [of _ mapping])
qed

end
